theory Spec2Isabelle
  imports Main "HOL-Library.AList"
begin

section \<open>routify.js: routing elements, groups and location matching\<close>

text \<open>
  The module keeps one object \<open>elements\<close> (routing group name to group record), a flag
  \<open>routerInstalled\<close>, and works on DOM elements that it reads and writes through
  attributes and properties. The embedding below follows \<^verbatim>\<open>src/routify.js\<close>:
  \<^item> a DOM element is a reference (\<open>elref\<close>) into a heap of \<open>element\<close> records, which
    hold the attributes and properties the module looks at (with the default names of
    \<open>config\<close>);
  \<^item> \<open>elements\<close> is an association list of its own keys, in the order in which
    \<open>Object.keys\<close> enumerates them; a name that \<open>elements\<close> inherits from
    \<open>Object.prototype\<close> is looked up as the source does (\<open>elementsAt\<close>);
  \<^item> what the module shows to the outside (hook calls, dispatched events, console
    output) is appended to a trace;
  \<^item> a function that can throw returns \<open>Inl\<close> of the error and of the state in which it
    was thrown, or \<open>Inr\<close> of its result: reading a property of \<open>undefined\<close> and a
    template that \<open>new URL\<close> rejects throw \<open>TypeError\<close>, a hook that throws (or whose
    promise is rejected) throws \<open>HookError\<close>.
  A hook is a function of the application: the model records the call with its
  arguments, and the hook then returns or throws, without touching the registry; a
  listener of the event \<open>route-activated\<close> does not touch it either. Each exported
  function runs to completion before the next one starts.
\<close>

subsection \<open>JavaScript strings\<close>

definition startsWith :: "string \<Rightarrow> string \<Rightarrow> bool" where
  "startsWith s p = (take (length p) s = p)"

definition endsWith :: "string \<Rightarrow> string \<Rightarrow> bool" where
  "endsWith s p = (length p \<le> length s \<and> drop (length s - length p) s = p)"

text \<open>\<open>s.substr(1)\<close>\<close>

definition substr1 :: "string \<Rightarrow> string" where
  "substr1 s = drop 1 s"

text \<open>\<open>s.split(sep)\<close> for a separator of one character: never the empty list.\<close>

fun split :: "char \<Rightarrow> string \<Rightarrow> string list" where
  "split sep [] = [[]]"
| "split sep (c # cs) =
     (if c = sep then [] # split sep cs
      else (c # hd (split sep cs)) # tl (split sep cs))"

subsection \<open>The window: URL parsing and the current location\<close>

text \<open>
  \<open>pathname\<close> and \<open>hash\<close> are the two properties read from a URL object and from
  \<open>window.location\<close>; \<open>hash\<close> is empty or starts with \<open>#\<close>. The constructor
  \<open>new URL(template, 'http://localhost/')\<close> belongs to the platform, so the window
  carries it as the field \<open>URL\<close>; its value \<open>None\<close> is the \<open>TypeError\<close> that the
  constructor throws for a template that it cannot parse. Every statement below holds
  for any such parser.
\<close>

record url =
  pathname :: string
  hash :: string

record window =
  URL :: "string \<Rightarrow> url option"
  location :: url

text \<open>
  A parser for concrete inputs. It agrees with the platform's on the templates of the
  form \<open>/path\<close>, \<open>/path?query\<close> and \<open>/path#fragment\<close> that do not start with two
  slashes and whose characters the platform keeps as they are (no dot segments, no
  backslash, no blank, no percent-encoding needed), where it takes the path up to the
  first \<open>?\<close> or \<open>#\<close> and the hash from the first \<open>#\<close>; and on the templates made of two
  or more slashes followed by nothing, by a query or by a fragment, such as \<open>//\<close>,
  which the platform rejects, since they name no host.
\<close>

definition simpleURL :: "string \<Rightarrow> url option" where
  "simpleURL t =
     (let p = takeWhile (\<lambda>c. c \<noteq> CHR ''#'' \<and> c \<noteq> CHR ''?'') t;
          f = dropWhile (\<lambda>c. c \<noteq> CHR ''#'') t
      in if startsWith t ''//'' \<and> dropWhile (\<lambda>c. c = CHR ''/'') p = [] then None
         else Some \<lparr> pathname = (if startsWith p ''/'' then p else CHR ''/'' # p),
                     hash = (if f = ''#'' then '''' else f) \<rparr>)"

definition browser :: "string \<Rightarrow> string \<Rightarrow> window" where
  "browser p h = \<lparr> URL = simpleURL, location = \<lparr> pathname = p, hash = h \<rparr> \<rparr>"

subsection \<open>locationMatch\<close>

text \<open>
  The object \<open>callbackParams\<close>: its own properties. The assignment
  \<open>callbackParams[name] = value\<close> of line 438 creates or overwrites the property
  \<open>name\<close>, but for the name \<open>__proto__\<close>: that assignment calls the setter inherited
  from \<open>Object.prototype\<close>, which does nothing when the value is a string.
\<close>

type_synonym params = "string \<rightharpoonup> string"

definition assign :: "params \<Rightarrow> string \<Rightarrow> string \<Rightarrow> params" where
  "assign callbackParams name v =
     (if name = ''__proto__'' then callbackParams else callbackParams(name \<mapsto> v))"

text \<open>
  The argument of \<open>locationMatch\<close>: a template string, an array of templates, or the
  \<open>false\<close> (\<open>undefined\<close>, \<open>null\<close>) that \<open>getPagePathFromEl\<close> gives for an element
  without a path.
\<close>

datatype pagePath = NoPath | Single string | Alternatives "string list"

text \<open>\<open>!!p\<close>: the empty string is falsy, every array is truthy.\<close>

fun truthyPath :: "pagePath \<Rightarrow> bool" where
  "truthyPath NoPath = False"
| "truthyPath (Single t) = (t \<noteq> [])"
| "truthyPath (Alternatives ts) = True"

text \<open>What \<open>locationMatch\<close> returns: \<open>undefined\<close>, \<open>false\<close>, or the object of parameters.\<close>

datatype matchResult = Undefined | RFalse | Params params

fun truthy :: "matchResult \<Rightarrow> bool" where
  "truthy Undefined = False"
| "truthy RFalse = False"
| "truthy (Params p) = True"

text \<open>
  What is thrown. \<open>Interleaved\<close> is no exception of the source: it marks the one place
  where \<open>registerRoute\<close> leaves the model (see there).
\<close>

datatype error = TypeError | HookError | Interleaved

text \<open>Lines 426-431: the value of \<open>hashMatching\<close> after the hash check.\<close>

definition hashMatching :: "string \<Rightarrow> string \<Rightarrow> string \<Rightarrow> bool" where
  "hashMatching templateUrl templateHash browserHash =
     (let templateHashEmpty = endsWith templateUrl ''#''
      in if templateHash \<noteq> [] \<or> templateHashEmpty then
           (if templateHashEmpty \<and> browserHash \<noteq> [] then False
            else if templateHash = ''*'' \<and> browserHash \<noteq> [] then True
            else templateHash = browserHash)
         else True)"

text \<open>
  Lines 436-446: the loop over the segments. Both paths have the same length when the
  loop starts, so it runs over the pairs \<open>(templatePath[i], browserPath[i])\<close>; the
  result \<open>None\<close> is the \<open>return false\<close> of the loop.
\<close>

fun callbackLoop :: "(string \<times> string) list \<Rightarrow> params \<Rightarrow> params option" where
  "callbackLoop [] callbackParams = Some callbackParams"
| "callbackLoop ((t, b) # rest) callbackParams =
     (if startsWith t '':'' then callbackLoop rest (assign callbackParams (substr1 t) b)
      else if t = ''*'' \<and> b \<noteq> [] then callbackLoop rest callbackParams
      else if t \<noteq> b then None
      else callbackLoop rest callbackParams)"

text \<open>Lines 416, 418, 423 and 424, on the parsed template and on \<open>window.location\<close>.\<close>

definition templatePathOf :: "url \<Rightarrow> string list" where
  "templatePathOf templateUrlObject = split CHR ''/'' (pathname templateUrlObject)"

definition browserPathOf :: "window \<Rightarrow> string list" where
  "browserPathOf w = split CHR ''/'' (pathname (location w))"

definition templateHashOf :: "url \<Rightarrow> string" where
  "templateHashOf templateUrlObject =
     substr1 (if hash templateUrlObject \<noteq> [] then hash templateUrlObject else ''#'')"

definition browserHashOf :: "window \<Rightarrow> string" where
  "browserHashOf w =
     substr1 (if hash (location w) \<noteq> [] then hash (location w) else ''#'')"

text \<open>Lines 412-454; line 415 throws where the template cannot be parsed.\<close>

definition locationMatchExecutor ::
  "window \<Rightarrow> string \<Rightarrow> (params \<Rightarrow> bool) option \<Rightarrow> error + matchResult" where
  "locationMatchExecutor w templateUrl checker =
     (case URL w templateUrl of
        None \<Rightarrow> Inl TypeError
      | Some templateUrlObject \<Rightarrow>
         (let templatePath = templatePathOf templateUrlObject;
              browserPath = browserPathOf w
          in if length templatePath \<noteq> length browserPath then Inr RFalse
             else if \<not> hashMatching templateUrl (templateHashOf templateUrlObject)
                                    (browserHashOf w)
             then Inr RFalse
             else (case callbackLoop (zip templatePath browserPath) Map.empty of
                     None \<Rightarrow> Inr RFalse
                   | Some callbackParams \<Rightarrow>
                       (case checker of
                          None \<Rightarrow> Inr (Params callbackParams)
                        | Some check \<Rightarrow>
                            if check callbackParams then Inr (Params callbackParams)
                            else Inr RFalse))))"

text \<open>
  Lines 458-462: the first alternative whose result is truthy; an alternative that
  cannot be parsed throws when the loop reaches it.
\<close>

fun firstMatch ::
  "window \<Rightarrow> string list \<Rightarrow> (params \<Rightarrow> bool) option \<Rightarrow> error + matchResult" where
  "firstMatch w [] checker = Inr RFalse"
| "firstMatch w (templateUrlElement # rest) checker =
     (case locationMatchExecutor w templateUrlElement checker of
        Inl err \<Rightarrow> Inl err
      | Inr r \<Rightarrow> if truthy r then Inr r else firstMatch w rest checker)"

definition locationMatch ::
  "window \<Rightarrow> pagePath \<Rightarrow> (params \<Rightarrow> bool) option \<Rightarrow> error + matchResult" where
  "locationMatch w templateUrl checker =
     (if \<not> truthyPath templateUrl then Inr Undefined
      else (case templateUrl of
              Single t \<Rightarrow> locationMatchExecutor w t checker
            | Alternatives ts \<Rightarrow> firstMatch w ts checker
            | NoPath \<Rightarrow> Inr Undefined))"

subsection \<open>Elements and their configuration\<close>

text \<open>
  What the module reads from a DOM element \<open>el\<close>, under the default names of
  \<open>config\<close>: the attribute (\<open>getAttribute\<close>, \<open>hasAttribute\<close>), the property of
  the element and the property of its constructor. \<open>None\<close> is a missing attribute or
  an undefined property; a flag is the truth value of the property, and the property
  \<open>active\<close> holds a boolean, as \<open>toggleElementActive\<close> writes it. A hook, when the
  element has one, returns or throws. The last field is the property
  \<open>activeElement\<close> of the element itself, which no element has of its own unless
  line 168 creates it (see \<open>elementsAt\<close>).
\<close>

datatype hook = Returns | Throws

type_synonym elref = nat

record element =
  pagePathAttribute :: "string option"
  pagePathProperty :: pagePath
  pagePathConstructor :: pagePath
  routingGroupAttribute :: "string option"
  routingGroupProperty :: "string option"
  fallbackAttribute :: bool
  fallbackProperty :: bool
  fallbackConstructor :: bool
  disableActivationAttribute :: bool
  disableActivationProperty :: bool
  disableActivationConstructor :: bool
  activeAttribute :: bool
  activeProperty :: bool
  preRouterCallback :: "hook option"
  routerCallback :: "hook option"
  routingRegistered :: bool
  activeElementProperty :: "elref option"

text \<open>Lines 67-71; the argument is the value of \<open>getAttribute\<close>.\<close>

definition toArray :: "string option \<Rightarrow> pagePath" where
  "toArray p =
     (case p of
        None \<Rightarrow> NoPath
      | Some t \<Rightarrow> if t = [] \<or> \<not> (CHR '' '' \<in> set t) then Single t
                  else Alternatives (split CHR '' '' t))"

definition getPagePathFromEl :: "element \<Rightarrow> pagePath" where
  "getPagePathFromEl el =
     (if truthyPath (toArray (pagePathAttribute el)) then toArray (pagePathAttribute el)
      else if truthyPath (pagePathProperty el) then pagePathProperty el
      else if truthyPath (pagePathConstructor el) then pagePathConstructor el
      else NoPath)"

definition truthyString :: "string option \<Rightarrow> bool" where
  "truthyString p = (case p of None \<Rightarrow> False | Some t \<Rightarrow> t \<noteq> [])"

definition getRoutingGroupFromEl :: "element \<Rightarrow> string" where
  "getRoutingGroupFromEl el =
     (if truthyString (routingGroupAttribute el) then the (routingGroupAttribute el)
      else if truthyString (routingGroupProperty el) then the (routingGroupProperty el)
      else ''default'')"

definition getFallbackFromEl :: "element \<Rightarrow> bool" where
  "getFallbackFromEl el =
     (fallbackAttribute el \<or> fallbackProperty el \<or> fallbackConstructor el \<or> False)"

definition getDisableActivationFromEl :: "element \<Rightarrow> bool" where
  "getDisableActivationFromEl el =
     (disableActivationAttribute el \<or> disableActivationProperty el \<or>
      disableActivationConstructor el \<or> False)"

definition getActiveFromEl :: "element \<Rightarrow> bool" where
  "getActiveFromEl el = (activeAttribute el \<or> activeProperty el \<or> False)"

subsection \<open>The module's state\<close>

text \<open>The event \<open>e\<close> handed to the hooks: \<open>None\<close> is \<open>null\<close>.\<close>

type_synonym navEvent = "nat option"

datatype event =
    NoPathError elref
  | RegisteredTwice elref
  | PreRouterCallback elref params navEvent
  | RouterCallback elref params navEvent
  | RouteActivated elref
  | LogElements

text \<open>One entry of \<open>elements\<close>; \<open>members\<close> is the source's \<open>list\<close>.\<close>

record group =
  members :: "elref list"
  fallback :: "elref option"
  activeElement :: "elref option"

text \<open>
  \<open>elements\<close> holds the own properties of the object. \<open>inheritedActive\<close> holds the
  property \<open>activeElement\<close> that line 168 creates on a value which \<open>elements\<close>
  inherits from \<open>Object.prototype\<close> (see \<open>elementsAt\<close>), under the name of that
  value; under the name \<open>__proto__\<close> it is the property \<open>activeElement\<close> of
  \<open>Object.prototype\<close> itself.
\<close>

record router =
  heap :: "elref \<Rightarrow> element"
  elements :: "(string \<times> group) list"
  inheritedActive :: "string \<rightharpoonup> elref"
  routerInstalled :: bool
  trace :: "event list"

text \<open>The result of a function that returns an \<open>'a\<close> or throws, with the state then.\<close>

type_synonym 'a outcome = "(error \<times> router) + 'a"

text \<open>The state in which a function has returned or thrown.\<close>

definition stateAfter :: "router outcome \<Rightarrow> router" where
  "stateAfter r = (case r of Inl (err, s) \<Rightarrow> s | Inr s \<Rightarrow> s)"

definition stateAfter2 :: "(router \<times> bool) outcome \<Rightarrow> router" where
  "stateAfter2 r = (case r of Inl (err, s) \<Rightarrow> s | Inr (s, b) \<Rightarrow> s)"

definition emit :: "event list \<Rightarrow> router \<Rightarrow> router" where
  "emit evs s = s\<lparr>trace := trace s @ evs\<rparr>"

text \<open>
  \<open>elements[group]\<close>. \<open>elements\<close> is a plain object, so for a name that is not one of
  its own keys the lookup goes on in \<open>Object.prototype\<close>: its properties are the
  functions \<open>constructor\<close>, \<open>toString\<close>, ... and the accessor \<open>__proto__\<close>, whose value
  is \<open>Object.prototype\<close> itself. Each of these values is truthy and has no property
  \<open>list\<close> or \<open>fallback\<close>. Once line 168 has run for the group \<open>__proto__\<close>,
  \<open>Object.prototype\<close> has one more property, \<open>activeElement\<close>, whose value is a
  DOM element: the name \<open>activeElement\<close> is then inherited too
  (\<open>ElementValue\<close>).
\<close>

definition objectPrototypeNames :: "string list" where
  "objectPrototypeNames =
     [''constructor'', ''__defineGetter__'', ''__defineSetter__'', ''hasOwnProperty'',
      ''__lookupGetter__'', ''__lookupSetter__'', ''isPrototypeOf'',
      ''propertyIsEnumerable'', ''toString'', ''valueOf'', ''__proto__'',
      ''toLocaleString'']"

datatype slot = OwnGroup group | InheritedValue | ElementValue elref | NoValue

definition elementsAt :: "router \<Rightarrow> string \<Rightarrow> slot" where
  "elementsAt s g =
     (case map_of (elements s) g of
        Some G \<Rightarrow> OwnGroup G
      | None \<Rightarrow>
          if g \<in> set objectPrototypeNames then InheritedValue
          else if g = ''activeElement'' then
            (case inheritedActive s ''__proto__'' of
               Some x \<Rightarrow> ElementValue x
             | None \<Rightarrow> NoValue)
          else NoValue)"

text \<open>
  \<open>elements[group].fallback\<close>, as line 141 compares it with an element: \<open>None\<close> is
  a value that is no element (\<open>null\<close>, \<open>undefined\<close>, or the flag \<open>fallback\<close> of
  the DOM element that \<open>elements[group]\<close> is).
\<close>

definition fallbackAt :: "router \<Rightarrow> string \<Rightarrow> error + elref option" where
  "fallbackAt s g =
     (case elementsAt s g of
        OwnGroup G \<Rightarrow> Inr (fallback G)
      | InheritedValue \<Rightarrow> Inr None
      | ElementValue x \<Rightarrow> Inr None
      | NoValue \<Rightarrow> Inl TypeError)"

text \<open>
  \<open>elements[group].activeElement\<close>. An inherited value, or a DOM element, has the
  property when line 168 has created it on this value, or on \<open>Object.prototype\<close>,
  from which all of them inherit.
\<close>

definition activeElementAt :: "router \<Rightarrow> string \<Rightarrow> error + elref option" where
  "activeElementAt s g =
     (case elementsAt s g of
        OwnGroup G \<Rightarrow> Inr (activeElement G)
      | InheritedValue \<Rightarrow>
          Inr (case inheritedActive s g of
                 Some a \<Rightarrow> Some a
               | None \<Rightarrow> inheritedActive s ''__proto__'')
      | ElementValue x \<Rightarrow>
          Inr (case activeElementProperty (heap s x) of
                 Some a \<Rightarrow> Some a
               | None \<Rightarrow> inheritedActive s ''__proto__'')
      | NoValue \<Rightarrow> Inl TypeError)"

text \<open>Lines 209-213.\<close>

definition toggleElementActive :: "elref \<Rightarrow> bool \<Rightarrow> router \<Rightarrow> router" where
  "toggleElementActive el active s =
     emit (if active then [RouteActivated el] else [])
       (s\<lparr>heap := (heap s)(el := (heap s el)\<lparr>activeProperty := active,
                                               activeAttribute := active\<rparr>)\<rparr>)"

text \<open>
  The two lines \<open>if (el[...]) await el[...](params, e)\<close> that appear three times in the
  source: the pre-activation hook, then the activation hook, each if present. The
  call is in the trace whether the hook returns or throws.
\<close>

definition callHook :: "hook option \<Rightarrow> event \<Rightarrow> router \<Rightarrow> router outcome" where
  "callHook h ev s =
     (case h of
        None \<Rightarrow> Inr s
      | Some Returns \<Rightarrow> Inr (emit [ev] s)
      | Some Throws \<Rightarrow> Inl (HookError, emit [ev] s))"

definition callHooks :: "elref \<Rightarrow> params \<Rightarrow> navEvent \<Rightarrow> router \<Rightarrow> router outcome" where
  "callHooks el ps e s =
     (case callHook (preRouterCallback (heap s el)) (PreRouterCallback el ps e) s of
        Inl thrown \<Rightarrow> Inl thrown
      | Inr s1 \<Rightarrow> callHook (routerCallback (heap s1 el)) (RouterCallback el ps e) s1)"

definition paramsOf :: "matchResult \<Rightarrow> params" where
  "paramsOf r = (case r of Params p \<Rightarrow> p | _ \<Rightarrow> Map.empty)"

text \<open>\<open>elements[g].activeElement = a\<close> for an own key \<open>g\<close>.\<close>

definition setActiveElement :: "string \<Rightarrow> elref option \<Rightarrow> router \<Rightarrow> router" where
  "setActiveElement g a s =
     s\<lparr>elements := AList.map_entry g (\<lambda>G. G\<lparr>activeElement := a\<rparr>) (elements s)\<rparr>"

text \<open>Line 168: \<open>elements[group].activeElement = el\<close>.\<close>

definition assignActiveElement :: "string \<Rightarrow> elref \<Rightarrow> router \<Rightarrow> router outcome" where
  "assignActiveElement g el s =
     (case elementsAt s g of
        OwnGroup G \<Rightarrow> Inr (setActiveElement g (Some el) s)
      | InheritedValue \<Rightarrow> Inr (s\<lparr>inheritedActive := (inheritedActive s)(g \<mapsto> el)\<rparr>)
      | ElementValue x \<Rightarrow>
          Inr (s\<lparr>heap := (heap s)(x := (heap s x)\<lparr>activeElementProperty := Some el\<rparr>)\<rparr>)
      | NoValue \<Rightarrow> Inl (TypeError, s))"

subsection \<open>maybeActivateElement\<close>

text \<open>
  Lines 134-173. \<open>elements[group]\<close> is read at line 141 when the element has no path
  and at line 161 when the location matches; where \<open>elements[group]\<close> is undefined
  the read of \<open>.fallback\<close> or \<open>.activeElement\<close> throws. Line 146 throws when
  \<open>locationMatch\<close> does.
\<close>

definition maybeActivateElement ::
  "window \<Rightarrow> elref \<Rightarrow> navEvent \<Rightarrow> router \<Rightarrow> (router \<times> bool) outcome" where
  "maybeActivateElement w el e s =
     (let path = getPagePathFromEl (heap s el);
          group = getRoutingGroupFromEl (heap s el);
          activationDisabled = getDisableActivationFromEl (heap s el)
      in case (if \<not> truthyPath path
               then (case fallbackAt s group of
                       Inl err \<Rightarrow> Inl (err, s)
                     | Inr fb \<Rightarrow> Inr (Some el \<noteq> fb \<and> \<not> activationDisabled))
               else Inr False) of
           Inl thrown \<Rightarrow> Inl thrown
         | Inr True \<Rightarrow> Inr (emit [NoPathError el] s, False)
         | Inr False \<Rightarrow>
            (case locationMatch w path None of
               Inl err \<Rightarrow> Inl (err, s)
             | Inr isActiveWithParams \<Rightarrow>
                if activationDisabled \<and> truthy isActiveWithParams
                then (case callHooks el (paramsOf isActiveWithParams) e s of
                        Inl thrown \<Rightarrow> Inl thrown
                      | Inr s' \<Rightarrow> Inr (s', False))
                else
                  (let s1 = (if truthy isActiveWithParams \<noteq> getActiveFromEl (heap s el)
                             then toggleElementActive el (truthy isActiveWithParams) s
                             else s)
                   in if truthy isActiveWithParams
                      then (case activeElementAt s1 group of
                              Inl err \<Rightarrow> Inl (err, s1)
                            | Inr a \<Rightarrow>
                               (case (if Some el \<noteq> a
                                      then callHooks el (paramsOf isActiveWithParams) e s1
                                      else Inr s1) of
                                  Inl thrown \<Rightarrow> Inl thrown
                                | Inr s2 \<Rightarrow>
                                   (case (if \<not> activationDisabled
                                          then assignActiveElement group el s2
                                          else Inr s2) of
                                      Inl thrown \<Rightarrow> Inl thrown
                                    | Inr s3 \<Rightarrow> Inr (s3, True))))
                      else Inr (s1, False))))"

subsection \<open>activateCurrentPath\<close>

text \<open>Lines 187-190: the loop over the members of one group.\<close>

fun activateMembers ::
  "window \<Rightarrow> navEvent \<Rightarrow> elref list \<Rightarrow> router \<Rightarrow> bool \<Rightarrow> (router \<times> bool) outcome" where
  "activateMembers w e [] s oneActive = Inr (s, oneActive)"
| "activateMembers w e (el # rest) s oneActive =
     (case maybeActivateElement w el e s of
        Inl thrown \<Rightarrow> Inl thrown
      | Inr (s', isActive) \<Rightarrow> activateMembers w e rest s' (oneActive \<or> isActive))"

text \<open>
  Lines 185-200: the body of the loop over the groups, for a group with members. The
  name \<open>g\<close> comes from \<open>Object.keys(elements)\<close>, so it is an own key.
\<close>

definition activateGroup ::
  "window \<Rightarrow> navEvent \<Rightarrow> string \<Rightarrow> router \<Rightarrow> router outcome" where
  "activateGroup w e g s =
     (case map_of (elements s) g of
        None \<Rightarrow> Inl (TypeError, s)
      | Some G \<Rightarrow>
         (case activateMembers w e (members G) (setActiveElement g None s) False of
            Inl thrown \<Rightarrow> Inl thrown
          | Inr (s2, oneActive) \<Rightarrow>
             (case map_of (elements s2) g of
                None \<Rightarrow> Inl (TypeError, s2)
              | Some G2 \<Rightarrow>
                 (case fallback G2 of
                    None \<Rightarrow> Inr s2
                  | Some fb \<Rightarrow>
                     (let fallbackActive = \<not> oneActive;
                          s3 = toggleElementActive fb fallbackActive s2
                      in if fallbackActive then callHooks fb Map.empty e s3
                         else Inr s3)))))"

text \<open>
  Lines 182-202: the loop over \<open>Object.keys(elements)\<close>. At a group without members
  the function returns (line 183): the groups after it are not looked at and line 202
  is not reached.
\<close>

fun activateGroups ::
  "window \<Rightarrow> navEvent \<Rightarrow> string list \<Rightarrow> router \<Rightarrow> router outcome" where
  "activateGroups w e [] s = Inr (emit [LogElements] s)"
| "activateGroups w e (g # rest) s =
     (case map_of (elements s) g of
        None \<Rightarrow> Inl (TypeError, s)
      | Some G \<Rightarrow>
         if members G = [] then Inr s
         else (case activateGroup w e g s of
                 Inl thrown \<Rightarrow> Inl thrown
               | Inr s' \<Rightarrow> activateGroups w e rest s'))"

definition activateCurrentPath :: "window \<Rightarrow> navEvent \<Rightarrow> router \<Rightarrow> router outcome" where
  "activateCurrentPath w e s = activateGroups w e (map fst (elements s)) s"

subsection \<open>Registering and unregistering\<close>

text \<open>
  \<open>Object.keys\<close> lists the keys that are array indices (the decimal numerals below
  \<open>2^32 - 1\<close>) first, in ascending order, and then the other keys in the order of their
  creation. \<open>insertGroup\<close> puts a new key at its place in that enumeration.
\<close>

fun decimal :: "string \<Rightarrow> nat \<Rightarrow> nat option" where
  "decimal [] n = Some n"
| "decimal (c # cs) n =
     (if c \<in> set ''0123456789'' then decimal cs (10 * n + (of_char c - 48)) else None)"

definition arrayIndex :: "string \<Rightarrow> nat option" where
  "arrayIndex k =
     (if k = [] \<or> (1 < length k \<and> hd k = CHR ''0'') then None
      else (case decimal k 0 of
              None \<Rightarrow> None
            | Some n \<Rightarrow> if n < 2 ^ 32 - 1 then Some n else None))"

fun insertGroup :: "string \<Rightarrow> group \<Rightarrow> (string \<times> group) list \<Rightarrow> (string \<times> group) list" where
  "insertGroup k v [] = [(k, v)]"
| "insertGroup k v ((k', v') # rest) =
     (case arrayIndex k of
        None \<Rightarrow> (k', v') # insertGroup k v rest
      | Some n \<Rightarrow>
         (case arrayIndex k' of
            None \<Rightarrow> (k, v) # (k', v') # rest
          | Some n' \<Rightarrow> if n < n' then (k, v) # (k', v') # rest
                       else (k', v') # insertGroup k v rest))"

definition emptyGroup :: group where
  "emptyGroup = \<lparr> members = [], fallback = None, activeElement = None \<rparr>"

text \<open>
  Lines 265 and 294: \<open>if (!elements[group]) elements[group] = {...}\<close>. An inherited
  value is truthy, so no group is created under its name.
\<close>

definition createGroup :: "string \<Rightarrow> router \<Rightarrow> router" where
  "createGroup g s =
     (case elementsAt s g of
        NoValue \<Rightarrow> s\<lparr>elements := insertGroup g emptyGroup (elements s)\<rparr>
      | _ \<Rightarrow> s)"

text \<open>
  Lines 268-273 and 327-366. \<open>installRouter\<close> adds the listeners and calls the
  callback, which starts \<open>activateCurrentPath\<close> and is not awaited. Where this pass
  returns before it reaches an \<open>await\<close> (no group, or a first group without members:
  line 183) it is complete when \<open>registerRoute\<close> goes on. In every state that the
  exported functions reach from the loaded module no group has a member at that moment.
  In another state the pass would go on while \<open>registerRoute\<close> does, which the model
  does not follow: the result is \<open>Interleaved\<close>.
\<close>

definition installRouter :: "router \<Rightarrow> router outcome" where
  "installRouter s =
     (case elements s of
        [] \<Rightarrow> Inr (emit [LogElements] s)
      | (g, G) # rest \<Rightarrow> if members G = [] then Inr s else Inl (Interleaved, s))"

text \<open>
  Lines 261-289. Line 280 throws when \<open>elements[group]\<close> is an inherited value, which
  has no \<open>list\<close> to push to.
\<close>

definition registerRoute :: "window \<Rightarrow> elref \<Rightarrow> router \<Rightarrow> router outcome" where
  "registerRoute w el s =
     (let group = getRoutingGroupFromEl (heap s el);
          s1 = createGroup group s
      in case (if \<not> routerInstalled s1
               then (case installRouter s1 of
                       Inl thrown \<Rightarrow> Inl thrown
                     | Inr s' \<Rightarrow> Inr (s'\<lparr>routerInstalled := True\<rparr>))
               else Inr s1) of
           Inl thrown \<Rightarrow> Inl thrown
         | Inr s2 \<Rightarrow>
            (let s3 = (if routingRegistered (heap s2 el)
                       then emit [RegisteredTwice el] s2 else s2);
                 s4 = s3\<lparr>heap := (heap s3)(el := (heap s3 el)\<lparr>routingRegistered := True\<rparr>)\<rparr>
             in case elementsAt s4 group of
                  NoValue \<Rightarrow> Inl (TypeError, s4)
                | InheritedValue \<Rightarrow> Inl (TypeError, s4)
                | ElementValue x \<Rightarrow> Inl (TypeError, s4)
                | OwnGroup G0 \<Rightarrow>
                   (let s5 = s4\<lparr>elements :=
                               AList.map_entry group (\<lambda>G. G\<lparr>members := members G @ [el]\<rparr>)
                                 (elements s4)\<rparr>;
                        s6 = s5\<lparr>elements :=
                               AList.map_entry group
                                 (\<lambda>G. if fallback G = None \<and> getFallbackFromEl (heap s5 el)
                                       then G\<lparr>fallback := Some el\<rparr> else G)
                                 (elements s5)\<rparr>
                    in case map_of (elements s6) group of
                         None \<Rightarrow> Inl (TypeError, s6)
                       | Some G \<Rightarrow>
                          if fallback G = None
                          then (case maybeActivateElement w el None s6 of
                                  Inl thrown \<Rightarrow> Inl thrown
                                | Inr (s7, isActive) \<Rightarrow> Inr s7)
                          else activateCurrentPath w None s6)))"

text \<open>
  Lines 299-305. An inherited value passes the test of line 302, and line 304 throws
  when it reads \<open>.list.filter\<close>.
\<close>

definition unregisterRoute :: "elref \<Rightarrow> router \<Rightarrow> router outcome" where
  "unregisterRoute el s =
     (let group = getRoutingGroupFromEl (heap s el)
      in case elementsAt s group of
           NoValue \<Rightarrow> Inr s
         | InheritedValue \<Rightarrow> Inl (TypeError, s)
         | ElementValue x \<Rightarrow> Inl (TypeError, s)
         | OwnGroup G \<Rightarrow>
            Inr (s\<lparr>elements :=
                    AList.map_entry group
                      (\<lambda>G. G\<lparr>members := filter (\<lambda>item. item \<noteq> el) (members G)\<rparr>)
                      (elements s)\<rparr>))"

text \<open>Lines 16-17: the state of the module when it is loaded.\<close>

definition initial :: "(elref \<Rightarrow> element) \<Rightarrow> router" where
  "initial h =
     \<lparr> heap = h, elements = [(''default'', emptyGroup)], inheritedActive = Map.empty,
       routerInstalled = False, trace = [] \<rparr>"

text \<open>
  Lines 291-297; \<open>els\<close> is the list that \<open>querySelectorAll\<close> returns. Line 295 throws
  when \<open>elements[group]\<close> is an inherited value.
\<close>

fun registerRoutesFromSelector :: "window \<Rightarrow> elref list \<Rightarrow> router \<Rightarrow> router outcome" where
  "registerRoutesFromSelector w [] s = Inr s"
| "registerRoutesFromSelector w (el # rest) s =
     (let group = getRoutingGroupFromEl (heap s el);
          s1 = createGroup group s
      in case elementsAt s1 group of
           NoValue \<Rightarrow> Inl (TypeError, s1)
         | InheritedValue \<Rightarrow> Inl (TypeError, s1)
         | ElementValue x \<Rightarrow> Inl (TypeError, s1)
         | OwnGroup G \<Rightarrow>
            if el \<in> set (members G) then registerRoutesFromSelector w rest s1
            else (case registerRoute w el s1 of
                    Inl thrown \<Rightarrow> Inl thrown
                  | Inr s2 \<Rightarrow> registerRoutesFromSelector w rest s2))"

text \<open>
  Lines 307-313. The call of \<open>unregisterRoute\<close> at line 311 is not awaited: the
  function has no \<open>await\<close>, so it is complete when the loop goes on, and what it throws
  rejects a promise that nothing looks at.
\<close>

fun unregisterRoutesFromSelector :: "elref list \<Rightarrow> router \<Rightarrow> router" where
  "unregisterRoutesFromSelector [] s = s"
| "unregisterRoutesFromSelector (el # rest) s =
     (case elementsAt s (getRoutingGroupFromEl (heap s el)) of
        NoValue \<Rightarrow> s
      | _ \<Rightarrow> unregisterRoutesFromSelector rest (stateAfter (unregisterRoute el s)))"

subsection \<open>Elements and registries for concrete inputs\<close>

definition blank :: element where
  "blank =
     \<lparr> pagePathAttribute = None, pagePathProperty = NoPath, pagePathConstructor = NoPath,
       routingGroupAttribute = None, routingGroupProperty = None,
       fallbackAttribute = False, fallbackProperty = False, fallbackConstructor = False,
       disableActivationAttribute = False, disableActivationProperty = False,
       disableActivationConstructor = False,
       activeAttribute = False, activeProperty = False,
       preRouterCallback = Some Returns, routerCallback = Some Returns,
       routingRegistered = True, activeElementProperty = None \<rparr>"

text \<open>\<^verbatim>\<open><x-page page-path="t">\<close> with both hooks, in the default group.\<close>

definition page :: "string \<Rightarrow> element" where
  "page t = blank\<lparr>pagePathAttribute := Some t\<rparr>"

definition registry :: "(elref \<Rightarrow> element) \<Rightarrow> (string \<times> group) list \<Rightarrow> router" where
  "registry h gs =
     \<lparr> heap = h, elements = gs, inheritedActive = Map.empty, routerInstalled = True,
       trace = [] \<rparr>"

subsection \<open>Notions for the statements\<close>

text \<open>
  The calls that \<open>callHooks\<close> makes when no hook throws, and the condition for that.
\<close>

definition hookEvents :: "element \<Rightarrow> elref \<Rightarrow> params \<Rightarrow> navEvent \<Rightarrow> event list" where
  "hookEvents c el ps e =
     (if preRouterCallback c \<noteq> None then [PreRouterCallback el ps e] else []) @
     (if routerCallback c \<noteq> None then [RouterCallback el ps e] else [])"

definition hooksReturn :: "element \<Rightarrow> bool" where
  "hooksReturn c = (preRouterCallback c \<noteq> Some Throws \<and> routerCallback c \<noteq> Some Throws)"

text \<open>The result of \<open>locationMatch\<close> is truthy: it has returned, and not \<open>false\<close>.\<close>

definition matched :: "error + matchResult \<Rightarrow> bool" where
  "matched r = (case r of Inl err \<Rightarrow> False | Inr m \<Rightarrow> truthy m)"

text \<open>One step of the loop over the segments succeeds on the pair \<open>(t, b)\<close>.\<close>

definition segmentOK :: "string \<times> string \<Rightarrow> bool" where
  "segmentOK z =
     (startsWith (fst z) '':'' \<or> (fst z = ''*'' \<and> snd z \<noteq> []) \<or> fst z = snd z)"

subsection \<open>Notions for the statements about reconciliation\<close>

text \<open>
  The configuration of an element: everything but its active flag, which is the only
  part of an element that \<open>maybeActivateElement\<close> and \<open>activateCurrentPath\<close> write.
\<close>

definition config :: "element \<Rightarrow> element" where
  "config c = c\<lparr>activeProperty := False, activeAttribute := False\<rparr>"

text \<open>
  Line 146 for the path of the element: \<open>locationMatch\<close> returns (it does not throw);
  it returns a truthy value, the location matches; and the parameters it returns then.
\<close>

definition parses :: "window \<Rightarrow> element \<Rightarrow> bool" where
  "parses w c =
     (case locationMatch w (getPagePathFromEl c) None of Inl err \<Rightarrow> False | Inr m \<Rightarrow> True)"

definition matches :: "window \<Rightarrow> element \<Rightarrow> bool" where
  "matches w c = matched (locationMatch w (getPagePathFromEl c) None)"

definition matchParams :: "window \<Rightarrow> element \<Rightarrow> params" where
  "matchParams w c =
     (case locationMatch w (getPagePathFromEl c) None of
        Inl err \<Rightarrow> Map.empty
      | Inr m \<Rightarrow> paramsOf m)"

text \<open>
  The element counts as a member that matched: the location matches its path and its
  activation is not disabled. This is the value that \<open>maybeActivateElement\<close> returns.
\<close>

definition counts :: "window \<Rightarrow> element \<Rightarrow> bool" where
  "counts w c = (matches w c \<and> \<not> getDisableActivationFromEl c)"

text \<open>
  What lines 141-158 do to the element: nothing when the element has no path (and is
  neither the fallback nor disabled) or is disabled and matches; otherwise the active
  flag becomes the truth value of the match.
\<close>

definition stepFlag :: "window \<Rightarrow> bool \<Rightarrow> element \<Rightarrow> element" where
  "stepFlag w isFallback c =
     (if (\<not> truthyPath (getPagePathFromEl c) \<and> \<not> isFallback \<and>
            \<not> getDisableActivationFromEl c) \<or>
         (getDisableActivationFromEl c \<and> matches w c) \<or>
         matches w c = getActiveFromEl c
      then c
      else c\<lparr>activeProperty := matches w c, activeAttribute := matches w c\<rparr>)"

text \<open>
  \<open>maybeActivateElement\<close> calls the hooks of the element \<open>el\<close>, where \<open>a\<close> is the
  active element of its group: the location matches, and the element is disabled
  (lines 149-153) or is not \<open>a\<close> (lines 161-164). And the call returns: line 146 does
  not throw, and the hooks return if they are called.
\<close>

definition hooked :: "window \<Rightarrow> elref option \<Rightarrow> elref \<Rightarrow> element \<Rightarrow> bool" where
  "hooked w a el c = (matches w c \<and> (getDisableActivationFromEl c \<or> Some el \<noteq> a))"

definition stepOK :: "window \<Rightarrow> elref option \<Rightarrow> elref \<Rightarrow> element \<Rightarrow> bool" where
  "stepOK w a el c = (parses w c \<and> (hooked w a el c \<longrightarrow> hooksReturn c))"

text \<open>
  The loop over the members \<open>L\<close>, from the active element \<open>a\<close>: the active element of
  the group after it, whether every call in it returns, and its hook calls.
\<close>

fun activeAfter ::
  "window \<Rightarrow> (elref \<Rightarrow> element) \<Rightarrow> elref list \<Rightarrow> elref option \<Rightarrow> elref option" where
  "activeAfter w h [] a = a"
| "activeAfter w h (el # L) a = activeAfter w h L (if counts w (h el) then Some el else a)"

fun membersOK ::
  "window \<Rightarrow> (elref \<Rightarrow> element) \<Rightarrow> elref list \<Rightarrow> elref option \<Rightarrow> bool" where
  "membersOK w h [] a = True"
| "membersOK w h (el # L) a =
     (stepOK w a el (h el) \<and> membersOK w h L (if counts w (h el) then Some el else a))"

text \<open>The hook calls in a trace, without the event that was passed to them.\<close>

fun hookCall :: "event \<Rightarrow> event list" where
  "hookCall (PreRouterCallback el ps e) = [PreRouterCallback el ps None]"
| "hookCall (RouterCallback el ps e) = [RouterCallback el ps None]"
| "hookCall ev = []"

definition hookCalls :: "event list \<Rightarrow> event list" where
  "hookCalls tr = concat (map hookCall tr)"

fun memberHooks ::
  "window \<Rightarrow> (elref \<Rightarrow> element) \<Rightarrow> elref list \<Rightarrow> elref option \<Rightarrow> event list" where
  "memberHooks w h [] a = []"
| "memberHooks w h (el # L) a =
     (if hooked w a el (h el) then hookEvents (h el) el (matchParams w (h el)) None else []) @
     memberHooks w h L (if counts w (h el) then Some el else a)"

text \<open>
  The pass over the group \<open>G\<close> returns: every call in the loop over the members
  returns, and the hooks of the fallback return if the fallback is activated.
\<close>

definition groupOK :: "window \<Rightarrow> (elref \<Rightarrow> element) \<Rightarrow> group \<Rightarrow> bool" where
  "groupOK w h G =
     (membersOK w h (members G) None \<and>
      (case fallback G of
         None \<Rightarrow> True
       | Some fb \<Rightarrow> (\<exists>el \<in> set (members G). counts w (h el)) \<or> hooksReturn (h fb)))"

subsection \<open>Registries\<close>

text \<open>
  A registry as \<open>registerRoute\<close> builds it: the keys of \<open>elements\<close> are distinct, and
  the members and the fallback of a group are elements whose routing group is this
  group (the group is read from the element when it is registered, and again by every
  call of \<open>maybeActivateElement\<close>).
\<close>

definition wellFormed :: "router \<Rightarrow> bool" where
  "wellFormed s =
     (distinct (map fst (elements s)) \<and>
      (\<forall>(g, G) \<in> set (elements s).
         (\<forall>el \<in> set (members G). getRoutingGroupFromEl (heap s el) = g) \<and>
         (case fallback G of
            None \<Rightarrow> True
          | Some fb \<Rightarrow> getRoutingGroupFromEl (heap s fb) = g)))"

text \<open>
  The router is installed, or no element is registered yet: so it is when the module
  is loaded, and \<open>registerRoute\<close> installs the router before it adds an element.
\<close>

definition installed :: "router \<Rightarrow> bool" where
  "installed s = (routerInstalled s \<or> (\<forall>(g, G) \<in> set (elements s). members G = []))"

text \<open>The active element of every group, when it is set, is a member of the group.\<close>

definition activeIsMember :: "router \<Rightarrow> bool" where
  "activeIsMember s =
     (\<forall>(g, G) \<in> set (elements s).
        case activeElement G of None \<Rightarrow> True | Some a \<Rightarrow> a \<in> set (members G))"

text \<open>
  The second state has the groups of the first, with the same members and fallbacks,
  the same configuration of every element and the same flag \<open>routerInstalled\<close>; the
  active element of a group is the one of the first state, or none, or a member.
\<close>

definition keeps :: "router \<Rightarrow> router \<Rightarrow> bool" where
  "keeps s s' =
     (map fst (elements s') = map fst (elements s) \<and>
      (\<forall>k G. map_of (elements s) k = Some G \<longrightarrow>
         (\<exists>G'. map_of (elements s') k = Some G' \<and> members G' = members G \<and>
               fallback G' = fallback G \<and>
               (activeElement G' = activeElement G \<or> activeElement G' = None \<or>
                (\<exists>a \<in> set (members G). activeElement G' = Some a)))) \<and>
      (\<forall>x. config (heap s' x) = config (heap s x)) \<and>
      routerInstalled s' = routerInstalled s)"

text \<open>
  The invariant of the registry: it is well-formed, the router is installed when an
  element is registered, and the active elements are members.
\<close>

definition invariant :: "router \<Rightarrow> bool" where
  "invariant s = (wellFormed s \<and> installed s \<and> activeIsMember s)"

text \<open>
  A registry for concrete inputs: two pages in the group \<open>default\<close>, the second with
  a path that \<open>new URL\<close> rejects, and an element that is not registered, of the routing
  group \<open>constructor\<close>.
\<close>

definition twoPages :: router where
  "twoPages =
     registry
       ((\<lambda>_. blank)
          (0 := page ''/a'', 1 := page ''//'',
           2 := blank\<lparr>routingGroupAttribute := Some ''constructor'',
                      routingRegistered := False\<rparr>))
       [(''default'', \<lparr>members = [0, 1], fallback = None, activeElement = Some 0\<rparr>)]"

subsection \<open>Notions for the statement about two passes\<close>

text \<open>
  The group \<open>g\<close> is as a pass over it leaves it: the active element is the last member
  that counts, the flag of every member but the fallback agrees with the location, and
  the flag of the fallback is set exactly when no member counts.
\<close>

definition settled :: "window \<Rightarrow> router \<Rightarrow> string \<Rightarrow> bool" where
  "settled w s g =
     (case map_of (elements s) g of
        None \<Rightarrow> True
      | Some G \<Rightarrow>
          activeElement G = activeAfter w (heap s) (members G) None \<and>
          (\<forall>x \<in> set (members G). fallback G \<noteq> Some x \<longrightarrow>
             stepFlag w False (heap s x) = heap s x) \<and>
          (case fallback G of
             None \<Rightarrow> True
           | Some fb \<Rightarrow>
               activeProperty (heap s fb) = (\<not> (\<exists>el \<in> set (members G). counts w (heap s el))) \<and>
               activeAttribute (heap s fb) = (\<not> (\<exists>el \<in> set (members G). counts w (heap s el)))))"

text \<open>
  The hook calls of the pass over one group: those of the loop over the members, and
  then those of the fallback, with the empty object, when no member counts.
\<close>

definition groupHooks :: "window \<Rightarrow> (elref \<Rightarrow> element) \<Rightarrow> group \<Rightarrow> event list" where
  "groupHooks w h G =
     memberHooks w h (members G) None @
     (case fallback G of
        None \<Rightarrow> []
      | Some fb \<Rightarrow>
          if \<exists>el \<in> set (members G). counts w (h el) then []
          else hookEvents (h fb) fb Map.empty None)"

text \<open>
  The groups that the loop of \<open>activateCurrentPath\<close> over the keys \<open>ks\<close> passes over:
  those before the first group without members. The hook calls of that loop, and
  whether it returns: the pass over each of these groups returns.
\<close>

fun reconciled :: "router \<Rightarrow> string list \<Rightarrow> string list" where
  "reconciled s [] = []"
| "reconciled s (g # ks) =
     (case map_of (elements s) g of
        None \<Rightarrow> []
      | Some G \<Rightarrow> if members G = [] then [] else g # reconciled s ks)"

fun passHooks :: "window \<Rightarrow> router \<Rightarrow> string list \<Rightarrow> event list" where
  "passHooks w s [] = []"
| "passHooks w s (g # ks) =
     (case map_of (elements s) g of
        None \<Rightarrow> []
      | Some G \<Rightarrow> if members G = [] then []
                  else groupHooks w (heap s) G @ passHooks w s ks)"

fun passOK :: "window \<Rightarrow> router \<Rightarrow> string list \<Rightarrow> bool" where
  "passOK w s [] = True"
| "passOK w s (g # ks) =
     (case map_of (elements s) g of
        None \<Rightarrow> False
      | Some G \<Rightarrow> if members G = [] then True
                  else groupOK w (heap s) G \<and> passOK w s ks)"

section \<open>Properties\<close>

lemmas url_defs = locationMatch_def locationMatchExecutor_def templatePathOf_def
  browserPathOf_def templateHashOf_def browserHashOf_def hashMatching_def simpleURL_def
  browser_def startsWith_def endsWith_def substr1_def assign_def

lemmas el_defs = getPagePathFromEl_def getRoutingGroupFromEl_def getFallbackFromEl_def
  getDisableActivationFromEl_def getActiveFromEl_def toArray_def truthyString_def
  blank_def page_def

lemmas op_defs = registry_def toggleElementActive_def emit_def callHooks_def callHook_def
  paramsOf_def setActiveElement_def elementsAt_def fallbackAt_def activeElementAt_def
  assignActiveElement_def

subsection \<open>The matcher\<close>

lemma locationMatch_NoPath:
  "\<not> truthyPath p \<Longrightarrow> locationMatch w p c = Inr Undefined"
  by (simp add: locationMatch_def)

lemma executor_throws:
  "(locationMatchExecutor w t c = Inl err) = (URL w t = None \<and> err = TypeError)"
  by (auto simp: locationMatchExecutor_def Let_def split: option.splits)

lemma executor_cases:
  "locationMatchExecutor w t c = Inl TypeError \<or> locationMatchExecutor w t c = Inr RFalse \<or>
   (\<exists>p. locationMatchExecutor w t c = Inr (Params p))"
  by (simp add: locationMatchExecutor_def Let_def split: option.splits)

lemma firstMatch_find:
  "firstMatch w ts c =
     (case List.find (\<lambda>t. locationMatchExecutor w t c \<noteq> Inr RFalse) ts of
        None \<Rightarrow> Inr RFalse
      | Some t \<Rightarrow> locationMatchExecutor w t c)"
proof (induction ts)
  case Nil
  then show ?case by simp
next
  case (Cons t ts)
  from executor_cases[of w t c] show ?case
    by (auto simp: Cons.IH)
qed

lemma firstMatch_cases:
  "firstMatch w ts c = Inl TypeError \<or> firstMatch w ts c = Inr RFalse \<or>
   (\<exists>p. firstMatch w ts c = Inr (Params p))"
proof (induction ts)
  case Nil
  then show ?case by simp
next
  case (Cons t ts)
  from executor_cases[of w t c] Cons.IH show ?case by auto
qed

text \<open>
  C6, as amended. For every template that is truthy (a non-empty string, or an array)
  \<open>locationMatch\<close> returns the object of parameters or \<open>false\<close>, or throws the
  \<open>TypeError\<close> of \<open>new URL\<close>; for the empty string it returns \<open>undefined\<close> (line 411).
  A string goes to the executor, which throws exactly when the template cannot be
  parsed. For an array, the first alternative, in the order of the array, whose result
  is not \<open>false\<close> decides: the result is its object of parameters, or its
  \<open>TypeError\<close>; it is \<open>false\<close> when there is no such alternative.
\<close>

theorem locationMatch_result:
  "(truthyPath t \<longrightarrow>
      locationMatch w t c = Inl TypeError \<or> locationMatch w t c = Inr RFalse \<or>
      (\<exists>p. locationMatch w t c = Inr (Params p))) \<and>
   locationMatch w (Single []) c = Inr Undefined \<and>
   locationMatch w (Single (x # xs)) c = locationMatchExecutor w (x # xs) c \<and>
   (locationMatchExecutor w u c = Inl TypeError) = (URL w u = None) \<and>
   locationMatch w (Alternatives ts) c =
     (case List.find (\<lambda>t. locationMatchExecutor w t c \<noteq> Inr RFalse) ts of
        None \<Rightarrow> Inr RFalse
      | Some t \<Rightarrow> locationMatchExecutor w t c)"
proof -
  have "truthyPath t \<longrightarrow>
      locationMatch w t c = Inl TypeError \<or> locationMatch w t c = Inr RFalse \<or>
      (\<exists>p. locationMatch w t c = Inr (Params p))"
    using executor_cases[of w _ c] firstMatch_cases[of w _ c]
    by (cases t) (auto simp: locationMatch_def)
  then show ?thesis
    by (simp add: locationMatch_def firstMatch_find executor_throws)
qed

theorem locationMatch_result_witness:
  "truthyPath (Alternatives [''/b'', ''/:x'', ''//'']) \<and>
   locationMatch (browser ''/a'' '''') (Alternatives [''/b'', ''/:x'', ''//'']) None =
     Inr (Params [''x'' \<mapsto> ''a'']) \<and>
   locationMatch (browser ''/a'' '''') (Alternatives [''/b'', ''//'', ''/:x'']) None =
     Inl TypeError \<and>
   locationMatch (browser ''/a'' '''') (Alternatives [''/b'', ''/c'']) None = Inr RFalse"
  using locationMatch_result [of "Alternatives [''/b'', ''/:x'', ''//'']"
      "browser ''/a'' ''''" None "CHR ''/''" "''a''" "''//''" "[''/b'', ''/:x'', ''//'']"]
    locationMatch_result [of "Alternatives [''/b'', ''//'', ''/:x'']"
      "browser ''/a'' ''''" None "CHR ''/''" "''a''" "''//''" "[''/b'', ''//'', ''/:x'']"]
    locationMatch_result [of "Alternatives [''/b'', ''/c'']"
      "browser ''/a'' ''''" None "CHR ''/''" "''a''" "''//''" "[''/b'', ''/c'']"]
  by (simp add: url_defs)

text \<open>
  C6, as stated, fails for the empty template string: the result is \<open>undefined\<close>,
  which is neither \<open>false\<close> nor an object of parameters.
\<close>

theorem locationMatch_empty_template:
  "locationMatch (browser ''/'' '''') (Single '''') None = Inr Undefined"
  by (simp add: locationMatch_def)

subsection \<open>The hooks\<close>

lemma callHooks_returns:
  "hooksReturn (heap s el) \<Longrightarrow>
   callHooks el ps e s = Inr (emit (hookEvents (heap s el) el ps e) s)"
  by (auto simp: callHooks_def callHook_def hooksReturn_def hookEvents_def emit_def
      split: option.splits hook.splits)

lemma callHooks_throws:
  "\<not> hooksReturn (heap s el) \<Longrightarrow>
   \<exists>evs. callHooks el ps e s = Inl (HookError, emit evs s)"
  by (cases "preRouterCallback (heap s el)"; cases "routerCallback (heap s el)")
     (auto simp: callHooks_def callHook_def hooksReturn_def emit_def
      split: option.splits hook.splits)

lemma callHooks_Inl:
  "callHooks el ps e s = Inl (err, s') \<Longrightarrow>
   err = HookError \<and> heap s' = heap s \<and> elements s' = elements s \<and>
   inheritedActive s' = inheritedActive s \<and> routerInstalled s' = routerInstalled s"
  by (auto simp: callHooks_def callHook_def emit_def split: option.splits hook.splits)

lemma callHooks_Inr:
  "callHooks el ps e s = Inr s' \<Longrightarrow>
   heap s' = heap s \<and> elements s' = elements s \<and>
   inheritedActive s' = inheritedActive s \<and> routerInstalled s' = routerInstalled s"
  by (auto simp: callHooks_def callHook_def emit_def split: option.splits hook.splits)

subsection \<open>One element with activation disabled\<close>

text \<open>
  C7. An element with activation disabled. When the location matches its path, the
  pre-activation hook and then the activation hook are called with the matched
  parameters (where the first one throws, the second one is not called), and nothing
  else changes, whether the hooks return or throw: the active flag of the element
  stays as it is. No call for an element with activation disabled changes the active
  element of a group. Whenever \<open>maybeActivateElement\<close> returns for such an element it
  returns \<open>false\<close>; and it returns when \<open>locationMatch\<close> does, the hooks that it calls
  do, and the element has a path or \<open>elements\<close> has a value for its group.
\<close>

theorem maybeActivateElement_disabled:
  assumes "getDisableActivationFromEl (heap s el)"
  shows "(\<forall>m. locationMatch w (getPagePathFromEl (heap s el)) None = Inr m \<and> truthy m \<longrightarrow>
            maybeActivateElement w el e s =
              (case callHooks el (paramsOf m) e s of
                 Inl thrown \<Rightarrow> Inl thrown
               | Inr s' \<Rightarrow> Inr (s', False)) \<and>
            (hooksReturn (heap s el) \<longrightarrow>
               maybeActivateElement w el e s =
                 Inr (s\<lparr>trace := trace s @ hookEvents (heap s el) el (paramsOf m) e\<rparr>, False)) \<and>
            heap (stateAfter2 (maybeActivateElement w el e s)) = heap s) \<and>
         elements (stateAfter2 (maybeActivateElement w el e s)) = elements s \<and>
         inheritedActive (stateAfter2 (maybeActivateElement w el e s)) = inheritedActive s \<and>
         (\<forall>s' r. maybeActivateElement w el e s = Inr (s', r) \<longrightarrow> r = False) \<and>
         (\<forall>m. locationMatch w (getPagePathFromEl (heap s el)) None = Inr m \<and>
               (truthy m \<longrightarrow> hooksReturn (heap s el)) \<and>
               (truthyPath (getPagePathFromEl (heap s el)) \<or>
                elementsAt s (getRoutingGroupFromEl (heap s el)) \<noteq> NoValue) \<longrightarrow>
            (\<exists>s'. maybeActivateElement w el e s = Inr (s', False)))"
proof (intro conjI allI impI)
  fix m
  assume m: "locationMatch w (getPagePathFromEl (heap s el)) None = Inr m \<and> truthy m"
  then have tp: "truthyPath (getPagePathFromEl (heap s el))"
    by (cases "truthyPath (getPagePathFromEl (heap s el))") (auto simp: locationMatch_NoPath)
  show r: "maybeActivateElement w el e s =
              (case callHooks el (paramsOf m) e s of
                 Inl thrown \<Rightarrow> Inl thrown
               | Inr s' \<Rightarrow> Inr (s', False))"
    using assms m tp by (simp add: maybeActivateElement_def Let_def)
  show "maybeActivateElement w el e s =
          Inr (s\<lparr>trace := trace s @ hookEvents (heap s el) el (paramsOf m) e\<rparr>, False)"
    if "hooksReturn (heap s el)"
    using that by (simp add: r callHooks_returns emit_def)
  show "heap (stateAfter2 (maybeActivateElement w el e s)) = heap s"
    by (auto simp: r stateAfter2_def split: sum.splits dest: callHooks_Inl callHooks_Inr)
next
  show "elements (stateAfter2 (maybeActivateElement w el e s)) = elements s"
    using assms
    by (auto simp: maybeActivateElement_def Let_def stateAfter2_def
        toggleElementActive_def emit_def split: sum.splits if_splits
        dest: callHooks_Inl callHooks_Inr)
next
  show "inheritedActive (stateAfter2 (maybeActivateElement w el e s)) = inheritedActive s"
    using assms
    by (auto simp: maybeActivateElement_def Let_def stateAfter2_def
        toggleElementActive_def emit_def split: sum.splits if_splits
        dest: callHooks_Inl callHooks_Inr)
next
  fix s' r
  assume "maybeActivateElement w el e s = Inr (s', r)"
  then show "r = False"
    using assms
    by (auto simp: maybeActivateElement_def Let_def split: sum.splits if_splits)
next
  fix m
  assume h: "locationMatch w (getPagePathFromEl (heap s el)) None = Inr m \<and>
               (truthy m \<longrightarrow> hooksReturn (heap s el)) \<and>
               (truthyPath (getPagePathFromEl (heap s el)) \<or>
                elementsAt s (getRoutingGroupFromEl (heap s el)) \<noteq> NoValue)"
  then have f: "truthyPath (getPagePathFromEl (heap s el)) \<or>
      (\<exists>fb. fallbackAt s (getRoutingGroupFromEl (heap s el)) = Inr fb)"
    by (auto simp: fallbackAt_def split: slot.splits)
  show "\<exists>s'. maybeActivateElement w el e s = Inr (s', False)"
    using assms h f
    by (auto simp: maybeActivateElement_def Let_def callHooks_returns)
qed

theorem maybeActivateElement_disabled_witness:
  "getDisableActivationFromEl
     (heap (registry (\<lambda>_. (page ''/main/:tab'')\<lparr>disableActivationAttribute := True\<rparr>)
        [(''default'', \<lparr>members = [0], fallback = None, activeElement = None\<rparr>)]) 0) \<and>
   locationMatch (browser ''/main/news'' '''')
     (getPagePathFromEl
       (heap (registry (\<lambda>_. (page ''/main/:tab'')\<lparr>disableActivationAttribute := True\<rparr>)
          [(''default'', \<lparr>members = [0], fallback = None, activeElement = None\<rparr>)]) 0))
     None = Inr (Params [''tab'' \<mapsto> ''news'']) \<and>
   hooksReturn
     (heap (registry (\<lambda>_. (page ''/main/:tab'')\<lparr>disableActivationAttribute := True\<rparr>)
        [(''default'', \<lparr>members = [0], fallback = None, activeElement = None\<rparr>)]) 0) \<and>
   maybeActivateElement (browser ''/main/news'' '''') 0 (Some 7)
     (registry (\<lambda>_. (page ''/main/:tab'')\<lparr>disableActivationAttribute := True\<rparr>)
        [(''default'', \<lparr>members = [0], fallback = None, activeElement = None\<rparr>)]) =
     Inr (\<lparr> heap = (\<lambda>_. (page ''/main/:tab'')\<lparr>disableActivationAttribute := True\<rparr>),
            elements = [(''default'', \<lparr>members = [0], fallback = None, activeElement = None\<rparr>)],
            inheritedActive = Map.empty, routerInstalled = True,
            trace = [PreRouterCallback 0 [''tab'' \<mapsto> ''news''] (Some 7),
                     RouterCallback 0 [''tab'' \<mapsto> ''news''] (Some 7)] \<rparr>, False) \<and>
   maybeActivateElement (browser ''/main/news'' '''') 0 (Some 7)
     (registry (\<lambda>_. (page ''/main/:tab'')\<lparr>disableActivationAttribute := True,
                                               preRouterCallback := Some Throws\<rparr>)
        [(''default'', \<lparr>members = [0], fallback = None, activeElement = None\<rparr>)]) =
     Inl (HookError,
          \<lparr> heap = (\<lambda>_. (page ''/main/:tab'')\<lparr>disableActivationAttribute := True,
                                                  preRouterCallback := Some Throws\<rparr>),
            elements = [(''default'', \<lparr>members = [0], fallback = None, activeElement = None\<rparr>)],
            inheritedActive = Map.empty, routerInstalled = True,
            trace = [PreRouterCallback 0 [''tab'' \<mapsto> ''news''] (Some 7)] \<rparr>)"
  using maybeActivateElement_disabled [of
      "registry (\<lambda>_. (page ''/main/:tab'')\<lparr>disableActivationAttribute := True\<rparr>)
        [(''default'', \<lparr>members = [0], fallback = None, activeElement = None\<rparr>)]"
      0 "browser ''/main/news'' ''''" "Some 7"]
    maybeActivateElement_disabled [of
      "registry (\<lambda>_. (page ''/main/:tab'')\<lparr>disableActivationAttribute := True,
                                               preRouterCallback := Some Throws\<rparr>)
        [(''default'', \<lparr>members = [0], fallback = None, activeElement = None\<rparr>)]"
      0 "browser ''/main/news'' ''''" "Some 7"]
  by (simp add: el_defs op_defs url_defs hooksReturn_def hookEvents_def)

text \<open>
  C10. An element with activation disabled whose path does not match the location
  (\<open>locationMatch\<close> returns \<open>false\<close> or \<open>undefined\<close>) goes through the toggling of
  lines 155-158: after the call its active flag is not set (it is cleared if it was
  set), no other element and no group changes, and no hook is called and no event
  dispatched.
\<close>

theorem maybeActivateElement_disabled_unmatched:
  assumes "getDisableActivationFromEl (heap s el)"
    and "locationMatch w (getPagePathFromEl (heap s el)) None = Inr m"
    and "\<not> truthy m"
    and "truthyPath (getPagePathFromEl (heap s el)) \<or>
          elementsAt s (getRoutingGroupFromEl (heap s el)) \<noteq> NoValue"
  shows "\<exists>s'. maybeActivateElement w el e s = Inr (s', False) \<and>
           \<not> getActiveFromEl (heap s' el) \<and>
           (\<forall>x. x \<noteq> el \<longrightarrow> heap s' x = heap s x) \<and>
           (getActiveFromEl (heap s el) \<longrightarrow>
              heap s' el = (heap s el)\<lparr>activeProperty := False, activeAttribute := False\<rparr>) \<and>
           (\<not> getActiveFromEl (heap s el) \<longrightarrow> heap s' = heap s) \<and>
           elements s' = elements s \<and> inheritedActive s' = inheritedActive s \<and>
           trace s' = trace s"
proof -
  from assms(4) have f: "truthyPath (getPagePathFromEl (heap s el)) \<or>
      (\<exists>fb. fallbackAt s (getRoutingGroupFromEl (heap s el)) = Inr fb)"
    by (auto simp: fallbackAt_def split: slot.splits)
  show ?thesis
    using assms(1-3) f
    by (auto simp: maybeActivateElement_def emit_def toggleElementActive_def Let_def
        getActiveFromEl_def)
qed

theorem maybeActivateElement_disabled_unmatched_witness:
  "getDisableActivationFromEl
     (heap (registry (\<lambda>_. (page ''/main'')\<lparr>disableActivationAttribute := True,
                                          activeAttribute := True\<rparr>)
        [(''default'', \<lparr>members = [0], fallback = None, activeElement = None\<rparr>)]) 0) \<and>
   locationMatch (browser ''/other'' '''')
     (getPagePathFromEl
       (heap (registry (\<lambda>_. (page ''/main'')\<lparr>disableActivationAttribute := True,
                                            activeAttribute := True\<rparr>)
          [(''default'', \<lparr>members = [0], fallback = None, activeElement = None\<rparr>)]) 0))
     None = Inr RFalse \<and>
   getActiveFromEl
     (heap (registry (\<lambda>_. (page ''/main'')\<lparr>disableActivationAttribute := True,
                                          activeAttribute := True\<rparr>)
        [(''default'', \<lparr>members = [0], fallback = None, activeElement = None\<rparr>)]) 0) \<and>
   maybeActivateElement (browser ''/other'' '''') 0 None
       (registry (\<lambda>_. (page ''/main'')\<lparr>disableActivationAttribute := True,
                                            activeAttribute := True\<rparr>)
          [(''default'', \<lparr>members = [0], fallback = None, activeElement = None\<rparr>)]) =
     Inr (\<lparr> heap = (\<lambda>_. (page ''/main'')\<lparr>disableActivationAttribute := True,
                                             activeAttribute := True\<rparr>)
                     (0 := (page ''/main'')\<lparr>disableActivationAttribute := True\<rparr>),
            elements = [(''default'', \<lparr>members = [0], fallback = None, activeElement = None\<rparr>)],
            inheritedActive = Map.empty, routerInstalled = True, trace = [] \<rparr>, False)"
  using maybeActivateElement_disabled_unmatched [of
      "registry (\<lambda>_. (page ''/main'')\<lparr>disableActivationAttribute := True,
                                            activeAttribute := True\<rparr>)
          [(''default'', \<lparr>members = [0], fallback = None, activeElement = None\<rparr>)]"
      0 "browser ''/other'' ''''" RFalse None]
  by (simp add: el_defs op_defs url_defs maybeActivateElement_def)

subsection \<open>A routing group whose name is inherited\<close>

text \<open>
  The call on an element whose routing group is a name that \<open>elements\<close> inherits,
  here \<open>constructor\<close>: lines 141 and 161 read \<open>undefined\<close> and the call goes on. A
  page that matches is activated, its hooks are called, and line 168 creates the
  property \<open>activeElement\<close> on the inherited value; an element without a path is
  reported. After the same call for the group \<open>__proto__\<close> the name \<open>activeElement\<close>
  is inherited too.
\<close>

lemma maybeActivateElement_inherited_group:
  "maybeActivateElement (browser ''/a'' '''') 0 None
     (registry (\<lambda>_. (page ''/a'')\<lparr>routingGroupAttribute := Some ''constructor''\<rparr>)
        [(''default'', \<lparr>members = [0], fallback = None, activeElement = None\<rparr>)]) =
   Inr (\<lparr> heap = (\<lambda>_. (page ''/a'')\<lparr>routingGroupAttribute := Some ''constructor''\<rparr>)
                   (0 := (page ''/a'')\<lparr>routingGroupAttribute := Some ''constructor'',
                                       activeProperty := True, activeAttribute := True\<rparr>),
          elements = [(''default'', \<lparr>members = [0], fallback = None, activeElement = None\<rparr>)],
          inheritedActive = [''constructor'' \<mapsto> 0], routerInstalled = True,
          trace = [RouteActivated 0, PreRouterCallback 0 Map.empty None,
                   RouterCallback 0 Map.empty None] \<rparr>, True)"
  "maybeActivateElement (browser ''/a'' '''') 0 None
     (registry (\<lambda>_. blank\<lparr>routingGroupAttribute := Some ''constructor''\<rparr>)
        [(''default'', \<lparr>members = [0], fallback = None, activeElement = None\<rparr>)]) =
   Inr (\<lparr> heap = (\<lambda>_. blank\<lparr>routingGroupAttribute := Some ''constructor''\<rparr>),
          elements = [(''default'', \<lparr>members = [0], fallback = None, activeElement = None\<rparr>)],
          inheritedActive = Map.empty, routerInstalled = True,
          trace = [NoPathError 0] \<rparr>, False)"
  "elementsAt
     (stateAfter2 (maybeActivateElement (browser ''/a'' '''') 0 None
        (registry (\<lambda>_. (page ''/a'')\<lparr>routingGroupAttribute := Some ''__proto__''\<rparr>)
           [(''default'', \<lparr>members = [0], fallback = None, activeElement = None\<rparr>)])))
     ''activeElement'' = ElementValue 0"
  by (simp_all add: maybeActivateElement_def el_defs op_defs url_defs objectPrototypeNames_def
      stateAfter2_def Let_def)

subsection \<open>The segments\<close>

lemma star_not_colon: "\<not> startsWith ''*'' '':''"
  by (simp add: startsWith_def)

lemma colon_name: "startsWith (CHR '':'' # name) '':''" "substr1 (CHR '':'' # name) = name"
  by (simp_all add: startsWith_def substr1_def)

lemma substr1_name:
  "startsWith t '':'' \<Longrightarrow> t \<noteq> CHR '':'' # name \<Longrightarrow> substr1 t \<noteq> name"
  by (cases t) (auto simp: startsWith_def substr1_def)

lemma callbackLoop_None_iff:
  "(callbackLoop zs p = None) = (\<exists>z \<in> set zs. \<not> segmentOK z)"
proof (induction zs arbitrary: p)
  case Nil
  then show ?case by simp
next
  case (Cons z zs)
  obtain t b where z: "z = (t, b)" by (cases z)
  show ?case unfolding z by (simp add: Cons.IH segmentOK_def star_not_colon)
qed

lemma callbackLoop_append:
  "callbackLoop (xs @ ys) p =
     (case callbackLoop xs p of None \<Rightarrow> None | Some p1 \<Rightarrow> callbackLoop ys p1)"
proof (induction xs arbitrary: p)
  case Nil
  then show ?case by simp
next
  case (Cons z zs)
  obtain t b where z: "z = (t, b)" by (cases z)
  show ?case unfolding z by (simp add: Cons.IH)
qed

lemma callbackLoop_unbound:
  "callbackLoop zs p = Some ps \<Longrightarrow> \<forall>z \<in> set zs. fst z \<noteq> CHR '':'' # name \<Longrightarrow>
   ps name = p name"
proof (induction zs arbitrary: p)
  case Nil
  then show ?case by simp
next
  case (Cons z zs)
  obtain t b where z: "z = (t, b)" by (cases z)
  from Cons.prems(2) have t: "t \<noteq> CHR '':'' # name"
    and rest: "\<forall>z \<in> set zs. fst z \<noteq> CHR '':'' # name"
    by (auto simp: z)
  show ?case
  proof (cases "startsWith t '':''")
    case True
    with Cons.prems(1) have "callbackLoop zs (assign p (substr1 t) b) = Some ps"
      by (simp add: z)
    from Cons.IH[OF this rest] substr1_name[OF True t] show ?thesis
      by (simp add: assign_def)
  next
    case False
    with Cons.prems(1) have "callbackLoop zs p = Some ps"
      by (simp add: z split: if_splits)
    from Cons.IH[OF this rest] show ?thesis .
  qed
qed

text \<open>No segment gives the result a property \<open>__proto__\<close> of its own.\<close>

lemma callbackLoop_proto:
  "callbackLoop zs p = Some ps \<Longrightarrow> ps ''__proto__'' = p ''__proto__''"
proof (induction zs arbitrary: p)
  case Nil
  then show ?case by simp
next
  case (Cons z zs)
  obtain t b where z: "z = (t, b)" by (cases z)
  show ?case
  proof (cases "startsWith t '':''")
    case True
    with Cons.prems have "callbackLoop zs (assign p (substr1 t) b) = Some ps"
      by (simp add: z)
    from Cons.IH[OF this] show ?thesis by (simp add: assign_def)
  next
    case False
    with Cons.prems have "callbackLoop zs p = Some ps"
      by (simp add: z split: if_splits)
    from Cons.IH[OF this] show ?thesis .
  qed
qed

lemma zip_split_at:
  assumes "length T = length B" "i < length T"
  shows "zip T B = zip (take i T) (take i B) @ (T ! i, B ! i) # zip (drop (Suc i) T) (drop (Suc i) B)"
proof -
  have "zip T B = zip (take i T @ T ! i # drop (Suc i) T) (take i B @ B ! i # drop (Suc i) B)"
    using assms by (simp add: id_take_nth_drop[symmetric])
  also have "\<dots> = zip (take i T) (take i B) @ zip (T ! i # drop (Suc i) T) (B ! i # drop (Suc i) B)"
    using assms by (intro zip_append) simp
  finally show ?thesis by simp
qed

lemma callbackLoop_step_colon:
  assumes "length T = length B" "i < length T" "T ! i = CHR '':'' # name"
  shows "callbackLoop (zip T B) p =
           (case callbackLoop (zip (take i T) (take i B)) p of
              None \<Rightarrow> None
            | Some p1 \<Rightarrow> callbackLoop (zip (drop (Suc i) T) (drop (Suc i) B))
                           (assign p1 name (B ! i)))"
  by (simp add: zip_split_at[OF assms(1,2)] callbackLoop_append assms(3) colon_name
      split: option.splits)

lemma callbackLoop_bound:
  assumes "length T = length B" "i < length T" "T ! i = CHR '':'' # name"
    and "name \<noteq> ''__proto__''"
    and "\<forall>j. i < j \<and> j < length T \<longrightarrow> T ! j \<noteq> CHR '':'' # name"
    and "callbackLoop (zip T B) p = Some ps"
  shows "ps name = Some (B ! i)"
proof -
  from assms(6) obtain p1 where
    r: "callbackLoop (zip (drop (Suc i) T) (drop (Suc i) B)) (assign p1 name (B ! i)) = Some ps"
    by (auto simp: callbackLoop_step_colon[OF assms(1-3)] split: option.splits)
  have "\<forall>z \<in> set (zip (drop (Suc i) T) (drop (Suc i) B)). fst z \<noteq> CHR '':'' # name"
  proof
    fix z assume "z \<in> set (zip (drop (Suc i) T) (drop (Suc i) B))"
    then have "fst z \<in> set (drop (Suc i) T)"
      by (metis prod.collapse set_zip_leftD)
    then obtain k where "k < length (drop (Suc i) T)" "fst z = drop (Suc i) T ! k"
      by (auto simp: in_set_conv_nth)
    then show "fst z \<noteq> CHR '':'' # name" using assms(5) by auto
  qed
  from callbackLoop_unbound[OF r this] assms(4) show ?thesis by (simp add: assign_def)
qed

lemma executor_matched_iff:
  assumes "URL w t = Some u"
  shows "matched (locationMatchExecutor w t None) =
     (length (templatePathOf u) = length (browserPathOf w) \<and>
      hashMatching t (templateHashOf u) (browserHashOf w) \<and>
      (\<forall>j < length (templatePathOf u). segmentOK (templatePathOf u ! j, browserPathOf w ! j)))"
proof (cases "length (templatePathOf u) = length (browserPathOf w)")
  case False
  then show ?thesis by (simp add: locationMatchExecutor_def assms matched_def)
next
  case True
  have "(callbackLoop (zip (templatePathOf u) (browserPathOf w)) Map.empty \<noteq> None) =
        (\<forall>j < length (templatePathOf u). segmentOK (templatePathOf u ! j, browserPathOf w ! j))"
    using True by (auto simp: callbackLoop_None_iff set_zip)
  with True show ?thesis
    by (auto simp: locationMatchExecutor_def assms matched_def Let_def split: option.splits)
qed

lemma executor_Params:
  "URL w t = Some u \<Longrightarrow> locationMatchExecutor w t c = Inr (Params ps) \<Longrightarrow>
   callbackLoop (zip (templatePathOf u) (browserPathOf w)) Map.empty = Some ps"
  by (auto simp: locationMatchExecutor_def Let_def split: option.splits if_splits)

lemma executor_star_empty:
  assumes "URL w t = Some u"
    and "length (templatePathOf u) = length (browserPathOf w)" "i < length (templatePathOf u)"
    and "templatePathOf u ! i = ''*''" "browserPathOf w ! i = []"
  shows "locationMatchExecutor w t c = Inr RFalse"
proof -
  have "(templatePathOf u ! i, browserPathOf w ! i) \<in> set (zip (templatePathOf u) (browserPathOf w))"
    using assms(2,3) by (auto simp: set_zip)
  moreover have "\<not> segmentOK (templatePathOf u ! i, browserPathOf w ! i)"
    by (simp add: segmentOK_def assms(4,5) star_not_colon)
  ultimately have "callbackLoop (zip (templatePathOf u) (browserPathOf w)) Map.empty = None"
    unfolding callbackLoop_None_iff by blast
  then show ?thesis by (simp add: locationMatchExecutor_def assms(1) Let_def)
qed

text \<open>
  C4, as amended. The template is parsed to \<open>u\<close>, template and location have the same
  number of segments, and \<open>i\<close> is one of the positions. Where the template has
  \<open>:name\<close>, the step of the loop never fails and assigns the segment of the location
  to \<open>name\<close> before the loop goes on; so the match succeeds exactly when the hash rule
  and the other segments do, whatever the segment of the location is (the empty string
  too). Its result maps \<open>name\<close> to that segment when no later segment of the template
  is \<open>:name\<close> with the same name (the last assignment is the one that stays) and the
  name is not \<open>__proto__\<close>. Where the template has \<open>*\<close>, the match succeeds exactly
  when moreover the segment of the location is not empty, and against an empty segment
  the result is \<open>false\<close>, with or without checker.
\<close>

theorem locationMatch_segments:
  assumes "URL w t = Some u"
    and "length (templatePathOf u) = length (browserPathOf w)"
    and "i < length (templatePathOf u)"
  shows "(templatePathOf u ! i = CHR '':'' # name \<longrightarrow>
            callbackLoop (zip (templatePathOf u) (browserPathOf w)) p =
              (case callbackLoop (zip (take i (templatePathOf u)) (take i (browserPathOf w))) p of
                 None \<Rightarrow> None
               | Some p1 \<Rightarrow>
                   callbackLoop (zip (drop (Suc i) (templatePathOf u))
                                     (drop (Suc i) (browserPathOf w)))
                     (assign p1 name (browserPathOf w ! i))) \<and>
            matched (locationMatchExecutor w t None) =
              (hashMatching t (templateHashOf u) (browserHashOf w) \<and>
               (\<forall>j < length (templatePathOf u). j \<noteq> i \<longrightarrow>
                  segmentOK (templatePathOf u ! j, browserPathOf w ! j))) \<and>
            (\<forall>ps. locationMatchExecutor w t c = Inr (Params ps) \<and>
                  name \<noteq> ''__proto__'' \<and>
                  (\<forall>j. i < j \<and> j < length (templatePathOf u) \<longrightarrow>
                       templatePathOf u ! j \<noteq> CHR '':'' # name) \<longrightarrow>
                  ps name = Some (browserPathOf w ! i))) \<and>
         (templatePathOf u ! i = ''*'' \<longrightarrow>
            matched (locationMatchExecutor w t None) =
              (browserPathOf w ! i \<noteq> [] \<and>
               hashMatching t (templateHashOf u) (browserHashOf w) \<and>
               (\<forall>j < length (templatePathOf u). j \<noteq> i \<longrightarrow>
                  segmentOK (templatePathOf u ! j, browserPathOf w ! j))) \<and>
            (browserPathOf w ! i = [] \<longrightarrow> locationMatchExecutor w t c = Inr RFalse))"
proof (intro conjI impI allI)
  assume "templatePathOf u ! i = CHR '':'' # name"
  then show "callbackLoop (zip (templatePathOf u) (browserPathOf w)) p =
              (case callbackLoop (zip (take i (templatePathOf u)) (take i (browserPathOf w))) p of
                 None \<Rightarrow> None
               | Some p1 \<Rightarrow>
                   callbackLoop (zip (drop (Suc i) (templatePathOf u))
                                     (drop (Suc i) (browserPathOf w)))
                     (assign p1 name (browserPathOf w ! i)))"
    by (rule callbackLoop_step_colon[OF assms(2,3)])
next
  assume c: "templatePathOf u ! i = CHR '':'' # name"
  have "segmentOK (templatePathOf u ! i, browserPathOf w ! i)"
    by (simp add: segmentOK_def c colon_name)
  then have "(\<forall>j < length (templatePathOf u). segmentOK (templatePathOf u ! j, browserPathOf w ! j)) =
        (\<forall>j < length (templatePathOf u). j \<noteq> i \<longrightarrow>
                  segmentOK (templatePathOf u ! j, browserPathOf w ! j))"
    by metis
  then show "matched (locationMatchExecutor w t None) =
              (hashMatching t (templateHashOf u) (browserHashOf w) \<and>
               (\<forall>j < length (templatePathOf u). j \<noteq> i \<longrightarrow>
                  segmentOK (templatePathOf u ! j, browserPathOf w ! j)))"
    by (simp add: executor_matched_iff[OF assms(1)] assms(2))
next
  fix ps
  assume c: "templatePathOf u ! i = CHR '':'' # name"
    and h: "locationMatchExecutor w t c = Inr (Params ps) \<and>
          name \<noteq> ''__proto__'' \<and>
          (\<forall>j. i < j \<and> j < length (templatePathOf u) \<longrightarrow>
               templatePathOf u ! j \<noteq> CHR '':'' # name)"
  from h have "callbackLoop (zip (templatePathOf u) (browserPathOf w)) Map.empty = Some ps"
    by (intro executor_Params[OF assms(1), of c]) simp
  with assms c h show "ps name = Some (browserPathOf w ! i)"
    by (intro callbackLoop_bound[where T = "templatePathOf u" and p = Map.empty]) auto
next
  assume c: "templatePathOf u ! i = ''*''"
  have "segmentOK (templatePathOf u ! i, browserPathOf w ! i) = (browserPathOf w ! i \<noteq> [])"
    by (auto simp: segmentOK_def c star_not_colon)
  then have "(\<forall>j < length (templatePathOf u). segmentOK (templatePathOf u ! j, browserPathOf w ! j)) =
        (browserPathOf w ! i \<noteq> [] \<and> (\<forall>j < length (templatePathOf u). j \<noteq> i \<longrightarrow>
                  segmentOK (templatePathOf u ! j, browserPathOf w ! j)))"
    using assms(3) by metis
  then show "matched (locationMatchExecutor w t None) =
              (browserPathOf w ! i \<noteq> [] \<and>
               hashMatching t (templateHashOf u) (browserHashOf w) \<and>
               (\<forall>j < length (templatePathOf u). j \<noteq> i \<longrightarrow>
                  segmentOK (templatePathOf u ! j, browserPathOf w ! j)))"
    by (auto simp: executor_matched_iff[OF assms(1)] assms(2))
next
  assume "templatePathOf u ! i = ''*''" "browserPathOf w ! i = []"
  then show "locationMatchExecutor w t c = Inr RFalse"
    by (rule executor_star_empty[OF assms])
qed

theorem locationMatch_segments_witness:
  "URL (browser ''/p/'' '''') ''/p/:id'' = Some \<lparr>pathname = ''/p/:id'', hash = ''''\<rparr> \<and>
   length (templatePathOf \<lparr>pathname = ''/p/:id'', hash = ''''\<rparr>) =
     length (browserPathOf (browser ''/p/'' '''')) \<and>
   2 < length (templatePathOf \<lparr>pathname = ''/p/:id'', hash = ''''\<rparr>) \<and>
   templatePathOf \<lparr>pathname = ''/p/:id'', hash = ''''\<rparr> ! 2 = CHR '':'' # ''id'' \<and>
   browserPathOf (browser ''/p/'' '''') ! 2 = [] \<and>
   locationMatchExecutor (browser ''/p/'' '''') ''/p/:id'' None = Inr (Params [''id'' \<mapsto> []]) \<and>
   URL (browser ''/p/'' '''') ''/p/*'' = Some \<lparr>pathname = ''/p/*'', hash = ''''\<rparr> \<and>
   templatePathOf \<lparr>pathname = ''/p/*'', hash = ''''\<rparr> ! 2 = ''*'' \<and>
   locationMatchExecutor (browser ''/p/'' '''') ''/p/*'' None = Inr RFalse"
  using locationMatch_segments [of "browser ''/p/'' ''''" "''/p/:id''"
      "\<lparr>pathname = ''/p/:id'', hash = ''''\<rparr>" 2 "''id''" Map.empty None]
    locationMatch_segments [of "browser ''/p/'' ''''" "''/p/*''"
      "\<lparr>pathname = ''/p/*'', hash = ''''\<rparr>" 2 "''id''" Map.empty None]
  by (simp add: url_defs)

text \<open>
  C4, as stated, fails where the template has the same name twice: at the template
  \<open>/:a/:a\<close> and the location \<open>/x/y\<close> the segment \<open>:a\<close> at position 1 stands against
  \<open>x\<close>, and the result maps \<open>a\<close> to \<open>y\<close>.
\<close>

theorem locationMatch_same_name_twice:
  "URL (browser ''/x/y'' '''') ''/:a/:a'' = Some \<lparr>pathname = ''/:a/:a'', hash = ''''\<rparr> \<and>
   templatePathOf \<lparr>pathname = ''/:a/:a'', hash = ''''\<rparr> ! 1 = CHR '':'' # ''a'' \<and>
   browserPathOf (browser ''/x/y'' '''') ! 1 = ''x'' \<and>
   locationMatch (browser ''/x/y'' '''') (Single ''/:a/:a'') None =
     Inr (Params [''a'' \<mapsto> ''y''])"
  by (simp add: url_defs)

text \<open>
  The segment \<open>:__proto__\<close> matches and binds nothing: at the location \<open>/x\<close> the
  result of the template \<open>/:__proto__\<close> is the empty object.
\<close>

lemma locationMatch_proto:
  "locationMatch (browser ''/x'' '''') (Single ''/:__proto__'') None = Inr (Params Map.empty)"
  by (simp add: url_defs)

subsection \<open>The hash\<close>

text \<open>
  The hash check of lines 423-431 in one formula: a template that ends in \<open>#\<close> asks
  for an empty hash of the location and of the template; another template without hash
  asks for nothing, with the hash \<open>*\<close> for a hash that is not empty, and with another
  hash for the same hash.
\<close>

lemma hashMatching_rule:
  "hashMatching t th bh =
     (if endsWith t ''#'' then bh = [] \<and> th = []
      else if th = [] then True
      else if th = ''*'' then bh \<noteq> []
      else th = bh)"
  by (auto simp: hashMatching_def)

text \<open>
  C5 at the template \<open>/a#x#\<close> and the location \<open>/a#x#\<close>: the two hashes are equal,
  \<open>x#\<close>, and the result is \<open>false\<close>, since the template ends in \<open>#\<close> and the hash of
  the location is not empty (line 428). The template \<open>/a#x\<close> matches the location
  \<open>/a#x\<close>.
\<close>

theorem locationMatch_hash_ending_in_hash:
  "map_option templateHashOf (URL (browser ''/a'' ''#x#'') ''/a#x#'') = Some ''x#'' \<and>
   browserHashOf (browser ''/a'' ''#x#'') = ''x#'' \<and>
   locationMatch (browser ''/a'' ''#x#'') (Single ''/a#x#'') None = Inr RFalse \<and>
   locationMatch (browser ''/a'' ''#x'') (Single ''/a#x'') None = Inr (Params Map.empty)"
  by (simp add: url_defs)

subsection \<open>The loop over the groups at a group without members\<close>

text \<open>
  A group whose name is an array index comes before the group \<open>default\<close> in the
  enumeration of \<open>Object.keys\<close>, though it is created after it.
\<close>

lemma insertGroup_array_index:
  "map fst (insertGroup ''2'' emptyGroup [(''default'', emptyGroup)]) = [''2'', ''default'']"
  by (simp add: arrayIndex_def)

text \<open>
  C1 at an application with one page, of path \<open>/a\<close> and of the routing group
  \<open>side\<close>. Registered at the location \<open>/other\<close> in the state of the loaded module,
  the page is the one member of the second group, after the group \<open>default\<close>, which
  has no member. Then, at the location \<open>/a\<close>, \<open>activateCurrentPath\<close> returns at the
  first group and leaves the state as it is: the page inactive, its hooks not called,
  line 202 not reached. The body of the loop, run on the second group, would activate
  the page.
\<close>

theorem activateCurrentPath_stops_at_empty_group:
  "registerRoute (browser ''/other'' '''') 0
     (initial (\<lambda>_. (page ''/a'')\<lparr>routingGroupAttribute := Some ''side'',
                                    routingRegistered := False\<rparr>)) =
   Inr \<lparr> heap = (\<lambda>_. (page ''/a'')\<lparr>routingGroupAttribute := Some ''side'',
                                     routingRegistered := False\<rparr>)
                  (0 := (page ''/a'')\<lparr>routingGroupAttribute := Some ''side''\<rparr>),
         elements = [(''default'', emptyGroup),
                     (''side'', \<lparr>members = [0], fallback = None, activeElement = None\<rparr>)],
         inheritedActive = Map.empty, routerInstalled = True, trace = [] \<rparr> \<and>
   activateCurrentPath (browser ''/a'' '''') (Some 1)
     \<lparr> heap = (\<lambda>_. (page ''/a'')\<lparr>routingGroupAttribute := Some ''side'',
                                   routingRegistered := False\<rparr>)
                (0 := (page ''/a'')\<lparr>routingGroupAttribute := Some ''side''\<rparr>),
       elements = [(''default'', emptyGroup),
                   (''side'', \<lparr>members = [0], fallback = None, activeElement = None\<rparr>)],
       inheritedActive = Map.empty, routerInstalled = True, trace = [] \<rparr> =
   Inr \<lparr> heap = (\<lambda>_. (page ''/a'')\<lparr>routingGroupAttribute := Some ''side'',
                                     routingRegistered := False\<rparr>)
                  (0 := (page ''/a'')\<lparr>routingGroupAttribute := Some ''side''\<rparr>),
         elements = [(''default'', emptyGroup),
                     (''side'', \<lparr>members = [0], fallback = None, activeElement = None\<rparr>)],
         inheritedActive = Map.empty, routerInstalled = True, trace = [] \<rparr> \<and>
   activateGroup (browser ''/a'' '''') (Some 1) ''side''
     \<lparr> heap = (\<lambda>_. (page ''/a'')\<lparr>routingGroupAttribute := Some ''side'',
                                   routingRegistered := False\<rparr>)
                (0 := (page ''/a'')\<lparr>routingGroupAttribute := Some ''side''\<rparr>),
       elements = [(''default'', emptyGroup),
                   (''side'', \<lparr>members = [0], fallback = None, activeElement = None\<rparr>)],
       inheritedActive = Map.empty, routerInstalled = True, trace = [] \<rparr> =
   Inr \<lparr> heap = (\<lambda>_. (page ''/a'')\<lparr>routingGroupAttribute := Some ''side'',
                                     routingRegistered := False\<rparr>)
                  (0 := (page ''/a'')\<lparr>routingGroupAttribute := Some ''side'',
                                      activeProperty := True, activeAttribute := True\<rparr>),
         elements = [(''default'', emptyGroup),
                     (''side'', \<lparr>members = [0], fallback = None, activeElement = Some 0\<rparr>)],
         inheritedActive = Map.empty, routerInstalled = True,
         trace = [RouteActivated 0, PreRouterCallback 0 Map.empty (Some 1),
                  RouterCallback 0 Map.empty (Some 1)] \<rparr>"
  by (simp add: registerRoute_def initial_def arrayIndex_def createGroup_def installRouter_def
      objectPrototypeNames_def
      activateCurrentPath_def activateGroup_def maybeActivateElement_def
      emptyGroup_def el_defs op_defs url_defs Let_def)

subsection \<open>One call of maybeActivateElement\<close>

lemma config_simps:
  "getPagePathFromEl (config c) = getPagePathFromEl c"
  "getRoutingGroupFromEl (config c) = getRoutingGroupFromEl c"
  "getDisableActivationFromEl (config c) = getDisableActivationFromEl c"
  "getFallbackFromEl (config c) = getFallbackFromEl c"
  "preRouterCallback (config c) = preRouterCallback c"
  "routerCallback (config c) = routerCallback c"
  "matches w (config c) = matches w c"
  "counts w (config c) = counts w c"
  "hookEvents (config c) = hookEvents c"
  "parses w (config c) = parses w c"
  "matchParams w (config c) = matchParams w c"
  "hooksReturn (config c) = hooksReturn c"
  "hooked w a el (config c) = hooked w a el c"
  "stepOK w a el (config c) = stepOK w a el c"
  by (simp_all add: config_def getPagePathFromEl_def getRoutingGroupFromEl_def
      getDisableActivationFromEl_def getFallbackFromEl_def matches_def counts_def
      hookEvents_def parses_def matchParams_def hooksReturn_def hooked_def stepOK_def
      fun_eq_iff)

lemma config_cong:
  assumes "config c = config c'"
  shows "getPagePathFromEl c = getPagePathFromEl c'"
    "getRoutingGroupFromEl c = getRoutingGroupFromEl c'"
    "getDisableActivationFromEl c = getDisableActivationFromEl c'"
    "getFallbackFromEl c = getFallbackFromEl c'"
    "matches w c = matches w c'"
    "counts w c = counts w c'"
    "hookEvents c = hookEvents c'"
    "parses w c = parses w c'"
    "matchParams w c = matchParams w c'"
    "hooksReturn c = hooksReturn c'"
    "hooked w a el c = hooked w a el c'"
    "stepOK w a el c = stepOK w a el c'"
  using config_simps[where c = c] config_simps[where c = c'] assms by metis+

lemma matches_truthyPath: "matches w c \<Longrightarrow> truthyPath (getPagePathFromEl c)"
  by (cases "truthyPath (getPagePathFromEl c)")
     (simp_all add: matches_def matched_def locationMatch_NoPath)

lemma matches_parses: "matches w c \<Longrightarrow> parses w c"
  by (simp add: matches_def matched_def parses_def split: sum.splits)

lemma parses_NoPath: "\<not> truthyPath (getPagePathFromEl c) \<Longrightarrow> parses w c"
  by (simp add: parses_def locationMatch_NoPath)

lemma parses_result:
  "parses w c \<Longrightarrow>
   \<exists>m. locationMatch w (getPagePathFromEl c) None = Inr m \<and> truthy m = matches w c \<and>
       paramsOf m = matchParams w c"
  by (auto simp: parses_def matches_def matched_def matchParams_def split: sum.splits)

lemma not_parses:
  "\<not> parses w c \<Longrightarrow> \<exists>err. locationMatch w (getPagePathFromEl c) None = Inl err"
  by (auto simp: parses_def split: sum.splits)

lemma config_flags [simp]:
  "config (c\<lparr>activeProperty := a, activeAttribute := b\<rparr>) = config c"
  by (simp add: config_def)

lemma config_stepFlag [simp]: "config (stepFlag w b c) = config c"
  by (simp add: stepFlag_def)

lemma stepFlag_idem [simp]: "stepFlag w b (stepFlag w b c) = stepFlag w b c"
proof -
  have m: "matches w (c\<lparr>activeProperty := x, activeAttribute := y\<rparr>) = matches w c" for x y
    using config_cong(5)[of "c\<lparr>activeProperty := x, activeAttribute := y\<rparr>" c w] by simp
  have p: "getPagePathFromEl (c\<lparr>activeProperty := x, activeAttribute := y\<rparr>) =
      getPagePathFromEl c" for x y
    using config_cong(1)[of "c\<lparr>activeProperty := x, activeAttribute := y\<rparr>" c] by simp
  have d: "getDisableActivationFromEl (c\<lparr>activeProperty := x, activeAttribute := y\<rparr>) =
      getDisableActivationFromEl c" for x y
    using config_cong(3)[of "c\<lparr>activeProperty := x, activeAttribute := y\<rparr>" c] by simp
  show ?thesis
    by (simp add: stepFlag_def m p d getActiveFromEl_def)
qed

lemma hookCalls_append [simp]: "hookCalls (xs @ ys) = hookCalls xs @ hookCalls ys"
  by (simp add: hookCalls_def)

lemma hookCalls_Nil [simp]: "hookCalls [] = []"
  by (simp add: hookCalls_def)

lemma hookCalls_hookEvents [simp]: "hookCalls (hookEvents c el ps e) = hookEvents c el ps None"
  by (simp add: hookCalls_def hookEvents_def)

lemma hookCalls_simps [simp]:
  "hookCalls [NoPathError el] = []" "hookCalls [RouteActivated el] = []"
  "hookCalls [LogElements] = []" "hookCalls [RegisteredTwice el] = []"
  "hookCalls (RouteActivated el # tr) = hookCalls tr"
  by (simp_all add: hookCalls_def)

lemma map_entry_same:
  "map_of xs k = Some v \<Longrightarrow> f v = v \<Longrightarrow> AList.map_entry k f xs = xs"
  by (induction xs) (auto split: if_splits)

lemma map_entry_twice:
  "AList.map_entry k f (AList.map_entry k f' xs) = AList.map_entry k (\<lambda>v. f (f' v)) xs"
  by (induction xs) auto

lemma map_of_map_entry_eq:
  "map_of xs k = Some v \<Longrightarrow> map_of (AList.map_entry k f xs) k = Some (f v)"
  by (simp add: map_of_map_entry)

lemma map_of_map_entry_neq:
  "k' \<noteq> k \<Longrightarrow> map_of (AList.map_entry k f xs) k' = map_of xs k'"
  by (simp add: map_of_map_entry)

text \<open>The reads and the write of \<open>elements[g]\<close> at an own key.\<close>

lemma own_key:
  assumes "map_of (elements s) g = Some G"
  shows "elementsAt s g = OwnGroup G" "fallbackAt s g = Inr (fallback G)"
    "activeElementAt s g = Inr (activeElement G)"
    "assignActiveElement g el s = Inr (setActiveElement g (Some el) s)"
  using assms
  by (simp_all add: elementsAt_def fallbackAt_def activeElementAt_def assignActiveElement_def)

text \<open>
  The call on an element whose group is an own key of \<open>elements\<close>. Where it returns,
  it returns whether the element counts, has written the flag of this element only,
  and has made the element the active one of its group when it counts. It throws
  where line 146 throws or a hook that it calls does.
\<close>

lemma maybeActivateElement_step:
  assumes G: "map_of (elements s) (getRoutingGroupFromEl (heap s el)) = Some G"
  shows "(stepOK w (activeElement G) el (heap s el) \<longrightarrow>
          (\<exists>s'. maybeActivateElement w el e s = Inr (s', counts w (heap s el)) \<and>
           heap s' = (heap s)(el := stepFlag w (fallback G = Some el) (heap s el)) \<and>
           elements s' =
             AList.map_entry (getRoutingGroupFromEl (heap s el))
               (\<lambda>G'. G'\<lparr>activeElement :=
                           if counts w (heap s el) then Some el else activeElement G\<rparr>)
               (elements s) \<and>
           inheritedActive s' = inheritedActive s \<and>
           routerInstalled s' = routerInstalled s \<and>
           (\<exists>tr. trace s' = trace s @ tr \<and>
                 hookCalls tr = memberHooks w (heap s) [el] (activeElement G)))) \<and>
         (\<not> stepOK w (activeElement G) el (heap s el) \<longrightarrow>
          (\<exists>err s'. maybeActivateElement w el e s = Inl (err, s')))"
proof -
  let ?c = "heap s el"
  let ?g = "getRoutingGroupFromEl ?c"
  let ?a = "activeElement G"
  note own = own_key[OF G]
  have same: "AList.map_entry ?g (\<lambda>G'. G'\<lparr>activeElement := activeElement G\<rparr>) (elements s) =
      elements s"
    by (rule map_entry_same[OF G]) simp
  consider (nopath) "\<not> truthyPath (getPagePathFromEl ?c)" "fallback G \<noteq> Some el"
        "\<not> getDisableActivationFromEl ?c"
    | (throws) "\<not> parses w ?c"
    | (detour) "getDisableActivationFromEl ?c" "matches w ?c"
    | (off) "parses w ?c" "\<not> matches w ?c"
        "truthyPath (getPagePathFromEl ?c) \<or> fallback G = Some el \<or>
         getDisableActivationFromEl ?c"
    | (on) "matches w ?c" "\<not> getDisableActivationFromEl ?c"
    using matches_parses by blast
  then show ?thesis
  proof cases
    case nopath
    then have nm: "\<not> matches w ?c" using matches_truthyPath by blast
    have ok: "stepOK w ?a el ?c"
      using nopath nm by (simp add: stepOK_def hooked_def parses_NoPath)
    have "maybeActivateElement w el e s = Inr (emit [NoPathError el] s, False)"
      using nopath by (auto simp: maybeActivateElement_def own)
    then show ?thesis using nopath nm same ok
      by (simp add: emit_def counts_def stepFlag_def hooked_def)
  next
    case throws
    then have tp: "truthyPath (getPagePathFromEl ?c)" using parses_NoPath by blast
    from not_parses[OF throws] obtain err where
      "locationMatch w (getPagePathFromEl ?c) None = Inl err" ..
    then have "maybeActivateElement w el e s = Inl (err, s)"
      using tp by (simp add: maybeActivateElement_def)
    then show ?thesis using throws by (simp add: stepOK_def)
  next
    case detour
    then have tp: "truthyPath (getPagePathFromEl ?c)"
      by (simp add: matches_truthyPath)
    from parses_result[OF matches_parses[OF detour(2)]] detour(2) obtain m where
      lm: "locationMatch w (getPagePathFromEl ?c) None = Inr m" and tm: "truthy m"
      and pm: "paramsOf m = matchParams w ?c"
      by auto
    have run: "maybeActivateElement w el e s =
        (case callHooks el (matchParams w ?c) e s of
           Inl thrown \<Rightarrow> Inl thrown | Inr s' \<Rightarrow> Inr (s', False))"
      using detour tp lm tm pm by (simp add: maybeActivateElement_def)
    have hk: "hooked w ?a el ?c" using detour by (simp add: hooked_def)
    show ?thesis
    proof (cases "hooksReturn ?c")
      case True
      then show ?thesis using detour same hk
        by (simp add: run callHooks_returns emit_def counts_def stepFlag_def stepOK_def
            matches_parses)
    next
      case False
      from callHooks_throws[OF False] obtain evs where
        "callHooks el (matchParams w ?c) e s = Inl (HookError, emit evs s)" by blast
      then show ?thesis using False hk by (simp add: run stepOK_def)
    qed
  next
    case off
    from parses_result[OF off(1)] off(2) obtain m where
      lm: "locationMatch w (getPagePathFromEl ?c) None = Inr m" and tm: "\<not> truthy m"
      by auto
    have ok: "stepOK w ?a el ?c" using off by (simp add: stepOK_def hooked_def)
    have "maybeActivateElement w el e s =
        Inr (if getActiveFromEl ?c then toggleElementActive el False s else s, False)"
      using off lm tm by (auto simp: maybeActivateElement_def own Let_def)
    then show ?thesis using off same ok
      by (auto simp: toggleElementActive_def emit_def counts_def stepFlag_def hooked_def)
  next
    case on
    then have tp: "truthyPath (getPagePathFromEl ?c)"
      by (simp add: matches_truthyPath)
    from parses_result[OF matches_parses[OF on(1)]] on(1) obtain m where
      lm: "locationMatch w (getPagePathFromEl ?c) None = Inr m" and tm: "truthy m"
      and pm: "paramsOf m = matchParams w ?c"
      by auto
    let ?ps = "matchParams w ?c"
    let ?s1 = "if getActiveFromEl ?c then s else toggleElementActive el True s"
    have e1: "elements ?s1 = elements s"
      and h1: "heap ?s1 el = stepFlag w (fallback G = Some el) ?c"
      and hh: "heap ?s1 = (heap s)(el := stepFlag w (fallback G = Some el) ?c)"
      and i1: "inheritedActive ?s1 = inheritedActive s"
      and r1: "routerInstalled ?s1 = routerInstalled s"
      using on tp by (auto simp: toggleElementActive_def emit_def stepFlag_def)
    have G1: "map_of (elements ?s1) ?g = Some G" using G e1 by simp
    have hr: "hooksReturn (heap ?s1 el) = hooksReturn ?c"
      unfolding h1 by (rule config_cong(10)) simp
    have he: "hookEvents (heap ?s1 el) = hookEvents ?c"
      unfolding h1 by (rule config_cong(7)) simp
    have hk: "hooked w ?a el ?c = (Some el \<noteq> ?a)" using on by (simp add: hooked_def)
    have run: "maybeActivateElement w el e s =
        (case (if Some el \<noteq> ?a then callHooks el ?ps e ?s1 else Inr ?s1) of
           Inl thrown \<Rightarrow> Inl thrown
         | Inr s2 \<Rightarrow>
            (case assignActiveElement ?g el s2 of
               Inl thrown \<Rightarrow> Inl thrown
             | Inr s3 \<Rightarrow> Inr (s3, True)))"
      using on tp lm tm pm own_key(3)[OF G1]
      by (cases "getActiveFromEl ?c")
         (simp_all add: maybeActivateElement_def Let_def cong: sum.case_cong)
    show ?thesis
    proof (cases "Some el \<noteq> ?a \<and> \<not> hooksReturn ?c")
      case True
      then have "\<not> hooksReturn (heap ?s1 el)" using hr by simp
      from callHooks_throws[OF this] obtain evs where
        "callHooks el ?ps e ?s1 = Inl (HookError, emit evs ?s1)" by blast
      then show ?thesis using True hk by (simp add: run stepOK_def)
    next
      case False
      let ?s2 = "if Some el \<noteq> ?a then emit (hookEvents ?c el ?ps e) ?s1 else ?s1"
      have c2: "(if Some el \<noteq> ?a then callHooks el ?ps e ?s1 else Inr ?s1) = Inr ?s2"
        using False hr he by (auto simp: callHooks_returns)
      have G2: "map_of (elements ?s2) ?g = Some G" using G1 by (simp add: emit_def)
      have run2: "maybeActivateElement w el e s = Inr (setActiveElement ?g (Some el) ?s2, True)"
        unfolding run c2 by (simp add: own_key(4)[OF G2])
      have ok: "stepOK w ?a el ?c"
        using False on hk by (auto simp: stepOK_def matches_parses)
      show ?thesis using on ok hk
        by (auto simp: run2 setActiveElement_def toggleElementActive_def emit_def
            counts_def hh h1 stepFlag_def)
    qed
  qed
qed

subsection \<open>The loop over the members\<close>

lemma activeAfter_cong:
  "(\<And>x. x \<in> set L \<Longrightarrow> config (h x) = config (h' x)) \<Longrightarrow>
   activeAfter w h L a = activeAfter w h' L a"
proof (induction L arbitrary: a)
  case Nil
  then show ?case by simp
next
  case (Cons el L)
  have "counts w (h el) = counts w (h' el)"
    by (rule config_cong(6)) (simp add: Cons.prems)
  then show ?case using Cons by simp
qed

lemma membersOK_cong:
  "(\<And>x. x \<in> set L \<Longrightarrow> config (h x) = config (h' x)) \<Longrightarrow>
   membersOK w h L a = membersOK w h' L a"
proof (induction L arbitrary: a)
  case Nil
  then show ?case by simp
next
  case (Cons el L)
  have c: "config (h el) = config (h' el)" by (simp add: Cons.prems)
  have "membersOK w h L b = membersOK w h' L b" for b
    by (rule Cons.IH) (simp add: Cons.prems)
  then show ?case
    by (simp add: config_cong(6)[OF c] config_cong(12)[OF c])
qed

lemma memberHooks_cong:
  "(\<And>x. x \<in> set L \<Longrightarrow> config (h x) = config (h' x)) \<Longrightarrow>
   memberHooks w h L a = memberHooks w h' L a"
proof (induction L arbitrary: a)
  case Nil
  then show ?case by simp
next
  case (Cons el L)
  have c: "config (h el) = config (h' el)" by (simp add: Cons.prems)
  have "memberHooks w h L b = memberHooks w h' L b" for b
    by (rule Cons.IH) (simp add: Cons.prems)
  then show ?case
    by (simp add: config_cong(6)[OF c] config_cong(7)[OF c] config_cong(9)[OF c]
        config_cong(11)[OF c])
qed

lemma activeAfter_append:
  "activeAfter w h (xs @ ys) a = activeAfter w h ys (activeAfter w h xs a)"
  by (induction xs arbitrary: a) simp_all

lemma activeAfter_cases:
  "activeAfter w h L a = a \<and> (\<forall>x \<in> set L. \<not> counts w (h x)) \<or>
   (\<exists>x \<in> set L. activeAfter w h L a = Some x \<and> counts w (h x))"
proof (induction L arbitrary: a)
  case Nil
  then show ?case by simp
next
  case (Cons el L)
  from Cons[of "if counts w (h el) then Some el else a"] show ?case
    by (cases "counts w (h el)") auto
qed

text \<open>
  The loop over members of the group \<open>g\<close>, an own key of \<open>elements\<close>: it returns
  exactly when every call in it does, and then it has applied \<open>stepFlag\<close> to every
  member, left the last member that counts as the active element, and called the hooks
  of \<open>memberHooks\<close>.
\<close>

lemma activateMembers_loop:
  assumes "map_of (elements s) g = Some G"
    and "\<forall>el \<in> set L. getRoutingGroupFromEl (heap s el) = g"
  shows "(membersOK w (heap s) L (activeElement G) \<longrightarrow>
          (\<exists>s'. activateMembers w e L s acc =
                 Inr (s', acc \<or> (\<exists>el \<in> set L. counts w (heap s el))) \<and>
           heap s' = (\<lambda>x. if x \<in> set L then stepFlag w (fallback G = Some x) (heap s x)
                          else heap s x) \<and>
           elements s' =
             AList.map_entry g
               (\<lambda>G'. G'\<lparr>activeElement := activeAfter w (heap s) L (activeElement G)\<rparr>)
               (elements s) \<and>
           inheritedActive s' = inheritedActive s \<and>
           routerInstalled s' = routerInstalled s \<and>
           (\<exists>tr. trace s' = trace s @ tr \<and>
                 hookCalls tr = memberHooks w (heap s) L (activeElement G)))) \<and>
         (\<not> membersOK w (heap s) L (activeElement G) \<longrightarrow>
          (\<exists>err s'. activateMembers w e L s acc = Inl (err, s')))"
  using assms
proof (induction L arbitrary: s G acc)
  case Nil
  have "AList.map_entry g (\<lambda>G'. G'\<lparr>activeElement := activeElement G\<rparr>) (elements s) = elements s"
    by (rule map_entry_same[OF Nil(1)]) simp
  then show ?case by simp
next
  case (Cons el L)
  let ?c = "heap s el"
  let ?a1 = "if counts w ?c then Some el else activeElement G"
  let ?G1 = "G\<lparr>activeElement := ?a1\<rparr>"
  have g: "getRoutingGroupFromEl ?c = g" using Cons.prems(2) by simp
  have Gel: "map_of (elements s) (getRoutingGroupFromEl ?c) = Some G"
    using Cons.prems(1) g by simp
  show ?case
  proof (cases "stepOK w (activeElement G) el ?c")
    case False
    from maybeActivateElement_step[OF Gel, of w e] False
    obtain err s1 where "maybeActivateElement w el e s = Inl (err, s1)" by blast
    then show ?thesis using False by simp
  next
    case True
    from maybeActivateElement_step[OF Gel, of w e] True g
    obtain s1 tr1 where
      run1: "maybeActivateElement w el e s = Inr (s1, counts w ?c)"
      and h1: "heap s1 = (heap s)(el := stepFlag w (fallback G = Some el) ?c)"
      and e1: "elements s1 = AList.map_entry g (\<lambda>G'. G'\<lparr>activeElement := ?a1\<rparr>) (elements s)"
      and i1: "inheritedActive s1 = inheritedActive s"
      and r1: "routerInstalled s1 = routerInstalled s"
      and t1: "trace s1 = trace s @ tr1"
      and k1: "hookCalls tr1 = memberHooks w (heap s) [el] (activeElement G)"
      by auto
    have cfg: "config (heap s1 x) = config (heap s x)" for x
      by (simp add: h1)
    have G1: "map_of (elements s1) g = Some ?G1"
      by (simp add: e1 map_of_map_entry_eq[OF Cons.prems(1)])
    have grp: "\<forall>x \<in> set L. getRoutingGroupFromEl (heap s1 x) = g"
      using Cons.prems(2) config_cong(2)[OF cfg] by simp
    have cnt: "counts w (heap s1 x) = counts w (heap s x)" for x
      by (rule config_cong(6)[OF cfg])
    have aa: "activeAfter w (heap s1) L a = activeAfter w (heap s) L a" for a
      by (rule activeAfter_cong) (rule cfg)
    have mh: "memberHooks w (heap s1) L a = memberHooks w (heap s) L a" for a
      by (rule memberHooks_cong) (rule cfg)
    have ok: "membersOK w (heap s1) L a = membersOK w (heap s) L a" for a
      by (rule membersOK_cong) (rule cfg)
    have unfold: "activateMembers w e (el # L) s acc =
        activateMembers w e L s1 (acc \<or> counts w ?c)"
      by (simp add: run1)
    have mok: "membersOK w (heap s) (el # L) (activeElement G) = membersOK w (heap s1) L ?a1"
      using True by (simp add: ok)
    note IH = Cons.IH[OF G1 grp, of "acc \<or> counts w ?c"]
    show ?thesis
    proof (cases "membersOK w (heap s1) L ?a1")
      case False
      with IH obtain err s' where
        "activateMembers w e L s1 (acc \<or> counts w ?c) = Inl (err, s')" by auto
      then show ?thesis using False unfolding mok unfold by simp
    next
      case mt: True
      with IH obtain s' tr where
        run: "activateMembers w e L s1 (acc \<or> counts w ?c) =
                Inr (s', (acc \<or> counts w ?c) \<or> (\<exists>x \<in> set L. counts w (heap s1 x)))"
        and h: "heap s' = (\<lambda>x. if x \<in> set L then stepFlag w (fallback ?G1 = Some x) (heap s1 x)
                              else heap s1 x)"
        and el: "elements s' =
                 AList.map_entry g
                   (\<lambda>G'. G'\<lparr>activeElement := activeAfter w (heap s1) L (activeElement ?G1)\<rparr>)
                   (elements s1)"
        and i: "inheritedActive s' = inheritedActive s1"
        and r: "routerInstalled s' = routerInstalled s1"
        and t: "trace s' = trace s1 @ tr"
        and k: "hookCalls tr = memberHooks w (heap s1) L (activeElement ?G1)"
        by auto
      have "activateMembers w e (el # L) s acc =
              Inr (s', acc \<or> (\<exists>x \<in> set (el # L). counts w (heap s x)))"
        unfolding unfold using run by (auto simp: cnt)
      moreover have "heap s' = (\<lambda>x. if x \<in> set (el # L)
                              then stepFlag w (fallback G = Some x) (heap s x) else heap s x)"
        by (rule ext) (simp add: h h1)
      moreover have "elements s' =
                 AList.map_entry g
                   (\<lambda>G'. G'\<lparr>activeElement := activeAfter w (heap s) (el # L) (activeElement G)\<rparr>)
                   (elements s)"
        by (simp add: el e1 map_entry_twice aa)
      moreover have "inheritedActive s' = inheritedActive s" by (simp add: i i1)
      moreover have "routerInstalled s' = routerInstalled s" by (simp add: r r1)
      moreover have "trace s' = trace s @ (tr1 @ tr)" by (simp add: t t1)
      moreover have "hookCalls (tr1 @ tr) = memberHooks w (heap s) (el # L) (activeElement G)"
        using k k1 by (simp add: mh)
      ultimately show ?thesis using mt unfolding mok by blast
    qed
  qed
qed

subsection \<open>An element without a path\<close>

text \<open>
  C9. An element without a path, not the fallback of its group (\<open>elements\<close> has a
  value for the group, whose \<open>fallback\<close> is not the element) and with activation
  enabled: \<open>maybeActivateElement\<close> logs the error and returns \<open>false\<close>; nothing but
  the console output changes. The loop over the members then goes on with the members
  \<open>rest\<close> that come after the element, in the state that differs by the console
  output only. Where the group is an own key of \<open>elements\<close>, the members of \<open>rest\<close>
  are elements of the group and every call for them returns, the loop has evaluated each
  of them when it returns: their flags are the ones that \<open>stepFlag\<close> gives, the value
  returned tells whether one of them counts, the last of them that counts is the
  active element of the group, and their hooks have been called, after the error was
  logged.
\<close>

theorem maybeActivateElement_no_path:
  assumes "\<not> truthyPath (getPagePathFromEl (heap s el))"
    and "fallbackAt s (getRoutingGroupFromEl (heap s el)) = Inr fb"
    and "fb \<noteq> Some el"
    and "\<not> getDisableActivationFromEl (heap s el)"
  shows "maybeActivateElement w el e s = Inr (emit [NoPathError el] s, False) \<and>
         heap (emit [NoPathError el] s) = heap s \<and>
         elements (emit [NoPathError el] s) = elements s \<and>
         inheritedActive (emit [NoPathError el] s) = inheritedActive s \<and>
         activateMembers w e (el # rest) s oneActive =
           activateMembers w e rest (emit [NoPathError el] s) oneActive \<and>
         (\<forall>G. map_of (elements s) (getRoutingGroupFromEl (heap s el)) = Some G \<and>
              (\<forall>x \<in> set rest.
                 getRoutingGroupFromEl (heap s x) = getRoutingGroupFromEl (heap s el)) \<and>
              membersOK w (heap s) rest (activeElement G) \<longrightarrow>
              (\<exists>s' tr.
                 activateMembers w e (el # rest) s oneActive =
                   Inr (s', oneActive \<or> (\<exists>x \<in> set rest. counts w (heap s x))) \<and>
                 (\<forall>x \<in> set rest. heap s' x = stepFlag w (fallback G = Some x) (heap s x)) \<and>
                 (\<forall>x. x \<notin> set rest \<longrightarrow> heap s' x = heap s x) \<and>
                 map_of (elements s') (getRoutingGroupFromEl (heap s el)) =
                   Some (G\<lparr>activeElement :=
                             activeAfter w (heap s) rest (activeElement G)\<rparr>) \<and>
                 trace s' = trace s @ NoPathError el # tr \<and>
                 hookCalls tr = memberHooks w (heap s) rest (activeElement G)))"
proof -
  let ?s1 = "emit [NoPathError el] s"
  let ?g = "getRoutingGroupFromEl (heap s el)"
  have run: "maybeActivateElement w el e s = Inr (?s1, False)"
    using assms by (simp add: maybeActivateElement_def)
  have unfold: "activateMembers w e (el # rest) s oneActive =
      activateMembers w e rest ?s1 oneActive"
    by (simp add: run)
  have cont: "\<exists>s' tr.
        activateMembers w e (el # rest) s oneActive =
          Inr (s', oneActive \<or> (\<exists>x \<in> set rest. counts w (heap s x))) \<and>
        (\<forall>x \<in> set rest. heap s' x = stepFlag w (fallback G = Some x) (heap s x)) \<and>
        (\<forall>x. x \<notin> set rest \<longrightarrow> heap s' x = heap s x) \<and>
        map_of (elements s') ?g =
          Some (G\<lparr>activeElement := activeAfter w (heap s) rest (activeElement G)\<rparr>) \<and>
        trace s' = trace s @ NoPathError el # tr \<and>
        hookCalls tr = memberHooks w (heap s) rest (activeElement G)"
    if G: "map_of (elements s) ?g = Some G"
      and grp: "\<forall>x \<in> set rest. getRoutingGroupFromEl (heap s x) = ?g"
      and ok: "membersOK w (heap s) rest (activeElement G)" for G
  proof -
    have G1: "map_of (elements ?s1) ?g = Some G" using G by (simp add: emit_def)
    have grp1: "\<forall>x \<in> set rest. getRoutingGroupFromEl (heap ?s1 x) = ?g"
      using grp by (simp add: emit_def)
    have ok1: "membersOK w (heap ?s1) rest (activeElement G)"
      using ok by (simp add: emit_def)
    from activateMembers_loop[OF G1 grp1, of w e oneActive] ok1
    obtain s' tr where
      r: "activateMembers w e rest ?s1 oneActive =
            Inr (s', oneActive \<or> (\<exists>x \<in> set rest. counts w (heap ?s1 x)))"
      and h: "heap s' = (\<lambda>x. if x \<in> set rest
                             then stepFlag w (fallback G = Some x) (heap ?s1 x)
                             else heap ?s1 x)"
      and el: "elements s' =
          AList.map_entry ?g
            (\<lambda>G'. G'\<lparr>activeElement := activeAfter w (heap ?s1) rest (activeElement G)\<rparr>)
            (elements ?s1)"
      and t: "trace s' = trace ?s1 @ tr"
      and k: "hookCalls tr = memberHooks w (heap ?s1) rest (activeElement G)"
      by blast
    have "activateMembers w e (el # rest) s oneActive =
          Inr (s', oneActive \<or> (\<exists>x \<in> set rest. counts w (heap s x)))"
      unfolding unfold using r by (simp add: emit_def)
    moreover have "\<forall>x \<in> set rest. heap s' x = stepFlag w (fallback G = Some x) (heap s x)"
      by (simp add: h emit_def)
    moreover have "\<forall>x. x \<notin> set rest \<longrightarrow> heap s' x = heap s x"
      by (simp add: h emit_def)
    moreover have "map_of (elements s') ?g =
          Some (G\<lparr>activeElement := activeAfter w (heap s) rest (activeElement G)\<rparr>)"
      using map_of_map_entry_eq[OF G1] by (simp add: el emit_def)
    moreover have "trace s' = trace s @ NoPathError el # tr"
      by (simp add: t emit_def)
    moreover have "hookCalls tr = memberHooks w (heap s) rest (activeElement G)"
      using k by (simp add: emit_def)
    ultimately show ?thesis by blast
  qed
  show ?thesis
    using run unfold cont by (simp add: emit_def)
qed

theorem maybeActivateElement_no_path_witness:
  "\<not> truthyPath (getPagePathFromEl
       (heap (registry ((\<lambda>_. blank)(1 := page ''/a''))
          [(''default'', \<lparr>members = [0, 1], fallback = None, activeElement = None\<rparr>)]) 0)) \<and>
   fallbackAt (registry ((\<lambda>_. blank)(1 := page ''/a''))
          [(''default'', \<lparr>members = [0, 1], fallback = None, activeElement = None\<rparr>)])
     (getRoutingGroupFromEl (heap (registry ((\<lambda>_. blank)(1 := page ''/a''))
          [(''default'', \<lparr>members = [0, 1], fallback = None, activeElement = None\<rparr>)]) 0)) =
     Inr None \<and>
   \<not> getDisableActivationFromEl (heap (registry ((\<lambda>_. blank)(1 := page ''/a''))
          [(''default'', \<lparr>members = [0, 1], fallback = None, activeElement = None\<rparr>)]) 0) \<and>
   membersOK (browser ''/a'' '''')
     (heap (registry ((\<lambda>_. blank)(1 := page ''/a''))
          [(''default'', \<lparr>members = [0, 1], fallback = None, activeElement = None\<rparr>)]))
     [1] None \<and>
   maybeActivateElement (browser ''/a'' '''') 0 None
       (registry ((\<lambda>_. blank)(1 := page ''/a''))
          [(''default'', \<lparr>members = [0, 1], fallback = None, activeElement = None\<rparr>)]) =
     Inr (\<lparr> heap = (\<lambda>_. blank)(1 := page ''/a''),
            elements = [(''default'', \<lparr>members = [0, 1], fallback = None, activeElement = None\<rparr>)],
            inheritedActive = Map.empty, routerInstalled = True,
            trace = [NoPathError 0] \<rparr>, False) \<and>
   activateMembers (browser ''/a'' '''') None [0, 1]
       (registry ((\<lambda>_. blank)(1 := page ''/a''))
          [(''default'', \<lparr>members = [0, 1], fallback = None, activeElement = None\<rparr>)]) False =
     Inr (\<lparr> heap = (\<lambda>_. blank)
                     (1 := (page ''/a'')\<lparr>activeProperty := True, activeAttribute := True\<rparr>),
            elements = [(''default'',
                         \<lparr>members = [0, 1], fallback = None, activeElement = Some 1\<rparr>)],
            inheritedActive = Map.empty, routerInstalled = True,
            trace = [NoPathError 0, RouteActivated 1, PreRouterCallback 1 Map.empty None,
                     RouterCallback 1 Map.empty None] \<rparr>, True)"
  using maybeActivateElement_no_path [of
      "registry ((\<lambda>_. blank)(1 := page ''/a''))
          [(''default'', \<lparr>members = [0, 1], fallback = None, activeElement = None\<rparr>)]"
      0 None "browser ''/a'' ''''" None "[1]" False]
  by (simp add: el_defs op_defs url_defs maybeActivateElement_def objectPrototypeNames_def
      stepOK_def parses_def hooked_def matches_def matched_def hooksReturn_def counts_def
      stepFlag_def hookCalls_def hookEvents_def matchParams_def Let_def)

subsection \<open>The body of the loop over the groups\<close>

lemma stepFlag_overwrite:
  "(stepFlag w b c)\<lparr>activeProperty := x, activeAttribute := y\<rparr> =
   c\<lparr>activeProperty := x, activeAttribute := y\<rparr>"
  by (simp add: stepFlag_def)

text \<open>
  The pass over a group whose members are elements of the group: it returns exactly
  when \<open>groupOK\<close> holds, and then in the state described.
\<close>

lemma activateGroup_pass:
  assumes G: "map_of (elements s) g = Some G"
    and grp: "\<forall>el \<in> set (members G). getRoutingGroupFromEl (heap s el) = g"
  shows "(groupOK w (heap s) G \<longrightarrow>
          (\<exists>s' s2. activateMembers w e (members G) (setActiveElement g None s) False =
             Inr (s2, \<exists>el \<in> set (members G). counts w (heap s el)) \<and>
           activateGroup w e g s = Inr s' \<and>
           heap s' =
             (\<lambda>x. if fallback G = Some x
                  then (heap s x)\<lparr>activeProperty := \<not> (\<exists>el \<in> set (members G). counts w (heap s el)),
                                  activeAttribute := \<not> (\<exists>el \<in> set (members G). counts w (heap s el))\<rparr>
                  else if x \<in> set (members G) then stepFlag w False (heap s x)
                  else heap s x) \<and>
           elements s' =
             AList.map_entry g
               (\<lambda>G'. G'\<lparr>activeElement := activeAfter w (heap s) (members G) None\<rparr>)
               (elements s) \<and>
           inheritedActive s' = inheritedActive s \<and>
           routerInstalled s' = routerInstalled s \<and>
           (\<exists>tr. trace s' =
                   trace s @ tr @
                   (case fallback G of
                      None \<Rightarrow> []
                    | Some fb \<Rightarrow>
                       if \<exists>el \<in> set (members G). counts w (heap s el) then []
                       else RouteActivated fb # hookEvents (heap s fb) fb Map.empty e) \<and>
                 hookCalls tr = memberHooks w (heap s) (members G) None))) \<and>
         (\<not> groupOK w (heap s) G \<longrightarrow> (\<exists>err s'. activateGroup w e g s = Inl (err, s')))"
proof -
  let ?L = "members G"
  let ?one = "\<exists>el \<in> set ?L. counts w (heap s el)"
  let ?s0 = "setActiveElement g None s"
  let ?G0 = "G\<lparr>activeElement := None\<rparr>"
  let ?AA = "activeAfter w (heap s) ?L None"
  have G0: "map_of (elements ?s0) g = Some ?G0"
    by (simp add: setActiveElement_def map_of_map_entry_eq[OF G])
  have h0: "heap ?s0 = heap s" and t0: "trace ?s0 = trace s"
    and r0: "routerInstalled ?s0 = routerInstalled s"
    and i0: "inheritedActive ?s0 = inheritedActive s"
    by (simp_all add: setActiveElement_def)
  have grp0: "\<forall>el \<in> set (members ?G0). getRoutingGroupFromEl (heap ?s0 el) = g"
    using grp by (simp add: h0)
  note loop = activateMembers_loop[OF G0 grp0, of w e False]
  show ?thesis
  proof (cases "membersOK w (heap s) ?L None")
    case False
    with loop obtain err s' where
      "activateMembers w e ?L ?s0 False = Inl (err, s')"
      by (auto simp: h0)
    then show ?thesis using False by (simp add: activateGroup_def G groupOK_def)
  next
    case True
    with loop obtain s2 tr where
      run0: "activateMembers w e (members ?G0) ?s0 False =
              Inr (s2, False \<or> (\<exists>el \<in> set (members ?G0). counts w (heap ?s0 el)))"
      and h20: "heap s2 = (\<lambda>x. if x \<in> set (members ?G0)
                            then stepFlag w (fallback ?G0 = Some x) (heap ?s0 x)
                            else heap ?s0 x)"
      and e20: "elements s2 =
          AList.map_entry g
            (\<lambda>G'. G'\<lparr>activeElement :=
                      activeAfter w (heap ?s0) (members ?G0) (activeElement ?G0)\<rparr>)
            (elements ?s0)"
      and i20: "inheritedActive s2 = inheritedActive ?s0"
      and r20: "routerInstalled s2 = routerInstalled ?s0"
      and t20: "trace s2 = trace ?s0 @ tr"
      and k20: "hookCalls tr = memberHooks w (heap ?s0) (members ?G0) (activeElement ?G0)"
      by (auto simp: h0)
    have run: "activateMembers w e ?L ?s0 False = Inr (s2, ?one)"
      using run0 by (simp add: h0)
    have h2: "heap s2 = (\<lambda>x. if x \<in> set ?L then stepFlag w (fallback G = Some x) (heap s x)
                            else heap s x)"
      by (rule ext) (simp add: h20 h0)
    have e2: "elements s2 = AList.map_entry g (\<lambda>G'. G'\<lparr>activeElement := ?AA\<rparr>) (elements s)"
      using e20 by (simp add: h0 setActiveElement_def map_entry_twice)
    have i2: "inheritedActive s2 = inheritedActive s"
      using i20 by (simp only: i0)
    have r2: "routerInstalled s2 = routerInstalled s"
      using r20 by (simp only: r0)
    have t2: "trace s2 = trace s @ tr"
      using t20 by (simp only: t0)
    have k2: "hookCalls tr = memberHooks w (heap s) ?L None"
      using k20 by (simp add: h0)
    have G2: "map_of (elements s2) g = Some (G\<lparr>activeElement := ?AA\<rparr>)"
      by (simp add: e2 map_of_map_entry_eq[OF G])
    show ?thesis
    proof (cases "fallback G")
      case None
      have "activateGroup w e g s = Inr s2"
        by (simp add: activateGroup_def G run G2 None)
      moreover have "heap s2 =
               (\<lambda>x. if fallback G = Some x
                    then (heap s x)\<lparr>activeProperty := \<not> ?one, activeAttribute := \<not> ?one\<rparr>
                    else if x \<in> set ?L then stepFlag w False (heap s x)
                    else heap s x)"
        by (rule ext) (simp add: h2 None)
      moreover have "groupOK w (heap s) G" using True None by (simp add: groupOK_def)
      ultimately show ?thesis using run e2 i2 r2 t2 k2 None by auto
    next
      case (Some fb)
      let ?s3 = "toggleElementActive fb (\<not> ?one) s2"
      have run3: "activateGroup w e g s =
          (if \<not> ?one then callHooks fb Map.empty e ?s3 else Inr ?s3)"
        by (simp add: activateGroup_def G run G2 Some Let_def)
      have c3: "config (heap ?s3 fb) = config (heap s fb)"
        by (simp add: toggleElementActive_def emit_def h2)
      have hr: "hooksReturn (heap ?s3 fb) = hooksReturn (heap s fb)"
        by (rule config_cong(10)[OF c3])
      have he: "hookEvents (heap ?s3 fb) = hookEvents (heap s fb)"
        by (rule config_cong(7)[OF c3])
      have ok: "groupOK w (heap s) G = (?one \<or> hooksReturn (heap s fb))"
        using True Some by (simp add: groupOK_def)
      show ?thesis
      proof (cases "?one \<or> hooksReturn (heap s fb)")
        case False
        then have "\<not> hooksReturn (heap ?s3 fb)" using hr by simp
        from callHooks_throws[OF this] obtain evs where
          "callHooks fb Map.empty e ?s3 = Inl (HookError, emit evs ?s3)" by blast
        then show ?thesis using False unfolding ok run3 by simp
      next
        case yes: True
        let ?s' = "if \<not> ?one then emit (hookEvents (heap s fb) fb Map.empty e) ?s3 else ?s3"
        have run': "activateGroup w e g s = Inr ?s'"
          unfolding run3 using yes hr he by (auto simp: callHooks_returns)
        have "heap ?s' =
                 (\<lambda>x. if fallback G = Some x
                      then (heap s x)\<lparr>activeProperty := \<not> ?one, activeAttribute := \<not> ?one\<rparr>
                      else if x \<in> set ?L then stepFlag w False (heap s x)
                      else heap s x)"
          by (rule ext)
            (auto simp: toggleElementActive_def emit_def h2 Some stepFlag_overwrite)
        moreover have "elements ?s' =
            AList.map_entry g (\<lambda>G'. G'\<lparr>activeElement := ?AA\<rparr>) (elements s)"
          by (simp add: toggleElementActive_def emit_def e2)
        moreover have "inheritedActive ?s' = inheritedActive s"
          by (simp add: toggleElementActive_def emit_def i2)
        moreover have "routerInstalled ?s' = routerInstalled s"
          by (simp add: toggleElementActive_def emit_def r2)
        moreover have "trace ?s' = trace s @ tr @
            (if ?one then [] else RouteActivated fb # hookEvents (heap s fb) fb Map.empty e)"
          by (simp add: toggleElementActive_def emit_def t2)
        ultimately show ?thesis using run run' k2 Some yes unfolding ok by auto
      qed
    qed
  qed
qed

text \<open>
  C3. The body of the loop over the groups, run on a group with members, all of them
  elements of this group. The pass returns exactly when no call of \<open>locationMatch\<close>
  in it throws and the hooks that it calls return (\<open>groupOK\<close>). A member matched when
  \<open>maybeActivateElement\<close> returned \<open>true\<close> for it, that is when it counts;
  \<open>oneActive\<close> is true at the end of the loop over the members exactly when some
  member counts. After the pass the active element of the group is set exactly when
  some member counts, and it is then one member that counts; and where the group has a
  fallback, the active flag of the fallback is set exactly when no member counts, in
  which case the trace ends with the event \<open>route-activated\<close> of the fallback, the
  call of its pre-activation hook and the call of its activation hook (each if
  present), both with the empty object of parameters.
\<close>

theorem activateGroup_fallback:
  assumes "map_of (elements s) g = Some G"
    and "members G \<noteq> []"
    and "\<forall>el \<in> set (members G). getRoutingGroupFromEl (heap s el) = g"
  shows "(\<exists>s'. activateGroup w e g s = Inr s') = groupOK w (heap s) G \<and>
         (\<forall>s'. activateGroup w e g s = Inr s' \<longrightarrow>
           (\<exists>s2 G'.
              activateMembers w e (members G) (setActiveElement g None s) False =
                Inr (s2, \<exists>el \<in> set (members G). counts w (heap s el)) \<and>
              map_of (elements s') g = Some G' \<and>
              members G' = members G \<and> fallback G' = fallback G \<and>
              (activeElement G' = None) = (\<not> (\<exists>el \<in> set (members G). counts w (heap s el))) \<and>
              (\<forall>a. activeElement G' = Some a \<longrightarrow> a \<in> set (members G) \<and> counts w (heap s a)) \<and>
              (\<forall>fb. fallback G = Some fb \<longrightarrow>
                 getActiveFromEl (heap s' fb) =
                   (\<not> (\<exists>el \<in> set (members G). counts w (heap s el))) \<and>
                 (\<not> (\<exists>el \<in> set (members G). counts w (heap s el)) \<longrightarrow>
                    (\<exists>tr. trace s' =
                       trace s @ tr @ [RouteActivated fb] @
                       (if preRouterCallback (heap s fb) \<noteq> None
                        then [PreRouterCallback fb Map.empty e] else []) @
                       (if routerCallback (heap s fb) \<noteq> None
                        then [RouterCallback fb Map.empty e] else []))))))"
proof (intro conjI allI impI)
  note pass = activateGroup_pass[OF assms(1,3), of w e]
  show "(\<exists>s'. activateGroup w e g s = Inr s') = groupOK w (heap s) G"
    using pass by (cases "groupOK w (heap s) G") auto
  fix s' assume ret: "activateGroup w e g s = Inr s'"
  let ?one = "\<exists>el \<in> set (members G). counts w (heap s el)"
  let ?AA = "activeAfter w (heap s) (members G) None"
  from ret pass have ok: "groupOK w (heap s) G"
    by (cases "groupOK w (heap s) G") auto
  with pass ret obtain s2 tr where
    run: "activateMembers w e (members G) (setActiveElement g None s) False = Inr (s2, ?one)"
    and h: "heap s' =
             (\<lambda>x. if fallback G = Some x
                  then (heap s x)\<lparr>activeProperty := \<not> ?one, activeAttribute := \<not> ?one\<rparr>
                  else if x \<in> set (members G) then stepFlag w False (heap s x)
                  else heap s x)"
    and el: "elements s' =
             AList.map_entry g (\<lambda>G'. G'\<lparr>activeElement := ?AA\<rparr>) (elements s)"
    and t: "trace s' = trace s @ tr @
                   (case fallback G of
                      None \<Rightarrow> []
                    | Some fb \<Rightarrow>
                       if ?one then []
                       else RouteActivated fb # hookEvents (heap s fb) fb Map.empty e)"
    by auto
  have G': "map_of (elements s') g = Some (G\<lparr>activeElement := ?AA\<rparr>)"
    by (simp add: el map_of_map_entry_eq[OF assms(1)])
  have a1: "(?AA = None) = (\<not> ?one)"
    and a2: "\<forall>a. ?AA = Some a \<longrightarrow> a \<in> set (members G) \<and> counts w (heap s a)"
    using activeAfter_cases[of w "heap s" "members G" None] by auto
  have f: "\<forall>fb. fallback G = Some fb \<longrightarrow>
              getActiveFromEl (heap s' fb) = (\<not> ?one) \<and>
              (\<not> ?one \<longrightarrow>
                 (\<exists>tr. trace s' =
                    trace s @ tr @ [RouteActivated fb] @
                    (if preRouterCallback (heap s fb) \<noteq> None
                     then [PreRouterCallback fb Map.empty e] else []) @
                    (if routerCallback (heap s fb) \<noteq> None
                     then [RouterCallback fb Map.empty e] else [])))"
  proof (intro allI impI conjI)
    fix fb assume fb: "fallback G = Some fb"
    show "getActiveFromEl (heap s' fb) = (\<not> ?one)"
      by (simp add: h fb getActiveFromEl_def)
    assume "\<not> ?one"
    then have "trace s' = trace s @ tr @ [RouteActivated fb] @
                    (if preRouterCallback (heap s fb) \<noteq> None
                     then [PreRouterCallback fb Map.empty e] else []) @
                    (if routerCallback (heap s fb) \<noteq> None
                     then [RouterCallback fb Map.empty e] else [])"
      by (simp add: t fb hookEvents_def)
    then show "\<exists>tr. trace s' =
                    trace s @ tr @ [RouteActivated fb] @
                    (if preRouterCallback (heap s fb) \<noteq> None
                     then [PreRouterCallback fb Map.empty e] else []) @
                    (if routerCallback (heap s fb) \<noteq> None
                     then [RouterCallback fb Map.empty e] else [])"
      by blast
  qed
  show "\<exists>s2 G'.
              activateMembers w e (members G) (setActiveElement g None s) False =
                Inr (s2, ?one) \<and>
              map_of (elements s') g = Some G' \<and>
              members G' = members G \<and> fallback G' = fallback G \<and>
              (activeElement G' = None) = (\<not> ?one) \<and>
              (\<forall>a. activeElement G' = Some a \<longrightarrow> a \<in> set (members G) \<and> counts w (heap s a)) \<and>
              (\<forall>fb. fallback G = Some fb \<longrightarrow>
                 getActiveFromEl (heap s' fb) = (\<not> ?one) \<and>
                 (\<not> ?one \<longrightarrow>
                    (\<exists>tr. trace s' =
                       trace s @ tr @ [RouteActivated fb] @
                       (if preRouterCallback (heap s fb) \<noteq> None
                        then [PreRouterCallback fb Map.empty e] else []) @
                       (if routerCallback (heap s fb) \<noteq> None
                        then [RouterCallback fb Map.empty e] else []))))"
    using run G' a1 a2 f
    by (intro exI[of _ s2] exI[of _ "G\<lparr>activeElement := ?AA\<rparr>"]) simp
qed

theorem activateGroup_fallback_witness:
  "map_of (elements (registry ((\<lambda>_. blank)(0 := page ''/a'', 1 := blank\<lparr>fallbackAttribute := True\<rparr>))
      [(''default'', \<lparr>members = [0, 1], fallback = Some 1, activeElement = Some 0\<rparr>)])) ''default'' =
     Some \<lparr>members = [0, 1], fallback = Some 1, activeElement = Some 0\<rparr> \<and>
   members \<lparr>members = [0, 1], fallback = Some 1, activeElement = Some 0\<rparr> \<noteq> [] \<and>
   getRoutingGroupFromEl
     (heap (registry ((\<lambda>_. blank)(0 := page ''/a'', 1 := blank\<lparr>fallbackAttribute := True\<rparr>))
        [(''default'', \<lparr>members = [0, 1], fallback = Some 1, activeElement = Some 0\<rparr>)]) 0) =
     ''default'' \<and>
   getRoutingGroupFromEl
     (heap (registry ((\<lambda>_. blank)(0 := page ''/a'', 1 := blank\<lparr>fallbackAttribute := True\<rparr>))
        [(''default'', \<lparr>members = [0, 1], fallback = Some 1, activeElement = Some 0\<rparr>)]) 1) =
     ''default'' \<and>
   groupOK (browser ''/b'' '''') ((\<lambda>_. blank)(0 := page ''/a'', 1 := blank\<lparr>fallbackAttribute := True\<rparr>))
     \<lparr>members = [0, 1], fallback = Some 1, activeElement = Some 0\<rparr> \<and>
   activateGroup (browser ''/b'' '''') None ''default''
      (registry ((\<lambda>_. blank)(0 := page ''/a'', 1 := blank\<lparr>fallbackAttribute := True\<rparr>))
        [(''default'', \<lparr>members = [0, 1], fallback = Some 1, activeElement = Some 0\<rparr>)]) =
     Inr \<lparr> heap = (\<lambda>_. blank)
                    (0 := page ''/a'',
                     1 := blank\<lparr>fallbackAttribute := True, activeProperty := True,
                                activeAttribute := True\<rparr>),
           elements = [(''default'',
                        \<lparr>members = [0, 1], fallback = Some 1, activeElement = None\<rparr>)],
           inheritedActive = Map.empty, routerInstalled = True,
           trace = [RouteActivated 1, PreRouterCallback 1 Map.empty None,
                    RouterCallback 1 Map.empty None] \<rparr>"
  using activateGroup_fallback [of
      "registry ((\<lambda>_. blank)(0 := page ''/a'', 1 := blank\<lparr>fallbackAttribute := True\<rparr>))
        [(''default'', \<lparr>members = [0, 1], fallback = Some 1, activeElement = Some 0\<rparr>)]"
      "''default''" "\<lparr>members = [0, 1], fallback = Some 1, activeElement = Some 0\<rparr>"
      "browser ''/b'' ''''" None]
  by (simp add: activateGroup_def maybeActivateElement_def el_defs op_defs url_defs Let_def
      groupOK_def stepOK_def parses_def hooked_def matches_def matched_def hooksReturn_def
      counts_def)

subsection \<open>What every pass keeps, whether it returns or throws\<close>

lemma map_fst_map_entry: "map fst (AList.map_entry k f xs) = map fst xs"
  by (induction xs) auto

lemma wellFormed_iff:
  "wellFormed s =
     (distinct (map fst (elements s)) \<and>
      (\<forall>g G. map_of (elements s) g = Some G \<longrightarrow>
         (\<forall>el \<in> set (members G). getRoutingGroupFromEl (heap s el) = g) \<and>
         (\<forall>fb. fallback G = Some fb \<longrightarrow> getRoutingGroupFromEl (heap s fb) = g)))"
proof (cases "distinct (map fst (elements s))")
  case True
  have "(\<forall>p \<in> set (elements s). P (fst p) (snd p)) =
      (\<forall>g G. map_of (elements s) g = Some G \<longrightarrow> P g G)" for P
    by (auto simp: map_of_eq_Some_iff[OF True])
  from this[of "\<lambda>g G. (\<forall>el \<in> set (members G). getRoutingGroupFromEl (heap s el) = g) \<and>
         (\<forall>fb. fallback G = Some fb \<longrightarrow> getRoutingGroupFromEl (heap s fb) = g)"]
  show ?thesis
    by (simp add: wellFormed_def True case_prod_beta split: option.splits) blast
next
  case False
  then show ?thesis by (simp add: wellFormed_def)
qed

lemma activeIsMember_iff:
  "distinct (map fst (elements s)) \<Longrightarrow>
   activeIsMember s =
     (\<forall>g G a. map_of (elements s) g = Some G \<longrightarrow> activeElement G = Some a \<longrightarrow>
        a \<in> set (members G))"
proof -
  assume d: "distinct (map fst (elements s))"
  have "(\<forall>p \<in> set (elements s). P (fst p) (snd p)) =
      (\<forall>g G. map_of (elements s) g = Some G \<longrightarrow> P g G)" for P
    by (auto simp: map_of_eq_Some_iff[OF d])
  from this[of "\<lambda>g G. \<forall>a. activeElement G = Some a \<longrightarrow> a \<in> set (members G)"]
  show ?thesis
    by (simp add: activeIsMember_def case_prod_beta split: option.splits)
qed

lemma installed_iff:
  "distinct (map fst (elements s)) \<Longrightarrow>
   installed s =
     (routerInstalled s \<or> (\<forall>g G. map_of (elements s) g = Some G \<longrightarrow> members G = []))"
proof -
  assume d: "distinct (map fst (elements s))"
  have "(\<forall>p \<in> set (elements s). P (fst p) (snd p)) =
      (\<forall>g G. map_of (elements s) g = Some G \<longrightarrow> P g G)" for P
    by (auto simp: map_of_eq_Some_iff[OF d])
  from this[of "\<lambda>g G. members G = []"]
  show ?thesis
    by (simp add: installed_def case_prod_beta)
qed

lemma keeps_refl: "keeps s s"
  by (simp add: keeps_def)

lemma keeps_trans:
  assumes "keeps s s1" and "keeps s1 s2"
  shows "keeps s s2"
  unfolding keeps_def
proof (intro conjI allI impI)
  show "map fst (elements s2) = map fst (elements s)"
    using assms by (simp add: keeps_def)
  show "\<And>x. config (heap s2 x) = config (heap s x)"
    using assms by (simp add: keeps_def)
  show "routerInstalled s2 = routerInstalled s"
    using assms by (simp add: keeps_def)
next
  fix k G assume "map_of (elements s) k = Some G"
  with assms(1) obtain G1 where G1: "map_of (elements s1) k = Some G1"
    and m1: "members G1 = members G" and f1: "fallback G1 = fallback G"
    and a1: "activeElement G1 = activeElement G \<or> activeElement G1 = None \<or>
             (\<exists>a \<in> set (members G). activeElement G1 = Some a)"
    unfolding keeps_def by blast
  from assms(2) G1 obtain G2 where G2: "map_of (elements s2) k = Some G2"
    and m2: "members G2 = members G1" and f2: "fallback G2 = fallback G1"
    and a2: "activeElement G2 = activeElement G1 \<or> activeElement G2 = None \<or>
             (\<exists>a \<in> set (members G1). activeElement G2 = Some a)"
    unfolding keeps_def by blast
  have "activeElement G2 = activeElement G \<or> activeElement G2 = None \<or>
        (\<exists>a \<in> set (members G). activeElement G2 = Some a)"
    using a1 a2 m1 by auto
  then show "\<exists>G'. map_of (elements s2) k = Some G' \<and> members G' = members G \<and>
               fallback G' = fallback G \<and>
               (activeElement G' = activeElement G \<or> activeElement G' = None \<or>
                (\<exists>a \<in> set (members G). activeElement G' = Some a))"
    using G2 m1 m2 f1 f2 by simp
qed

lemma keeps_None:
  assumes "keeps s s'" "map_of (elements s) k = None"
  shows "map_of (elements s') k = None"
proof -
  from assms(2) have "k \<notin> set (map fst (elements s))"
    by (simp add: map_of_eq_None_iff)
  with assms(1) have "k \<notin> set (map fst (elements s'))" by (simp add: keeps_def)
  then show ?thesis by (simp add: map_of_eq_None_iff)
qed

lemma keeps_Some:
  assumes "keeps s s'" "map_of (elements s') k = Some G'"
  shows "\<exists>G. map_of (elements s) k = Some G \<and> members G' = members G \<and>
           fallback G' = fallback G \<and>
           (activeElement G' = activeElement G \<or> activeElement G' = None \<or>
            (\<exists>a \<in> set (members G). activeElement G' = Some a))"
proof (cases "map_of (elements s) k")
  case None
  from keeps_None[OF assms(1) None] assms(2) show ?thesis by simp
next
  case (Some G)
  with assms show ?thesis unfolding keeps_def by fastforce
qed

lemma keeps_wellFormed:
  assumes "wellFormed s" "keeps s s'"
  shows "wellFormed s'"
  unfolding wellFormed_iff
proof (intro conjI allI impI)
  show "distinct (map fst (elements s'))"
    using assms by (simp add: wellFormed_iff keeps_def)
next
  fix k K assume K: "map_of (elements s') k = Some K"
  from keeps_Some[OF assms(2) K] obtain K0 where K0: "map_of (elements s) k = Some K0"
    and m: "members K = members K0" and f: "fallback K = fallback K0"
    by blast
  have grp: "getRoutingGroupFromEl (heap s' x) = getRoutingGroupFromEl (heap s x)" for x
    by (rule config_cong(2)) (use assms(2) in \<open>simp add: keeps_def\<close>)
  from assms(1) K0 have w: "(\<forall>el \<in> set (members K0). getRoutingGroupFromEl (heap s el) = k) \<and>
         (\<forall>fb. fallback K0 = Some fb \<longrightarrow> getRoutingGroupFromEl (heap s fb) = k)"
    unfolding wellFormed_iff by blast
  show "\<forall>el \<in> set (members K). getRoutingGroupFromEl (heap s' el) = k"
    using w by (simp add: m grp)
  fix fb assume "fallback K = Some fb"
  then show "getRoutingGroupFromEl (heap s' fb) = k"
    using w by (simp add: f grp)
qed

lemma keeps_activeIsMember:
  assumes "wellFormed s" "keeps s s'" "activeIsMember s"
  shows "activeIsMember s'"
proof -
  have d: "distinct (map fst (elements s))" using assms(1) by (simp add: wellFormed_iff)
  have d': "distinct (map fst (elements s'))"
    using keeps_wellFormed[OF assms(1,2)] by (simp add: wellFormed_iff)
  show ?thesis
    unfolding activeIsMember_iff[OF d']
  proof (intro allI impI)
    fix k K a assume K: "map_of (elements s') k = Some K" and a: "activeElement K = Some a"
    from keeps_Some[OF assms(2) K] obtain K0 where K0: "map_of (elements s) k = Some K0"
      and m: "members K = members K0"
      and c: "activeElement K = activeElement K0 \<or> activeElement K = None \<or>
            (\<exists>a \<in> set (members K0). activeElement K = Some a)"
      by blast
    from assms(3) K0 have "\<forall>b. activeElement K0 = Some b \<longrightarrow> b \<in> set (members K0)"
      unfolding activeIsMember_iff[OF d] by blast
    with c a show "a \<in> set (members K)" by (auto simp: m)
  qed
qed

lemma keeps_installed:
  assumes "wellFormed s" "keeps s s'" "installed s"
  shows "installed s'"
proof -
  have d: "distinct (map fst (elements s))" using assms(1) by (simp add: wellFormed_iff)
  have d': "distinct (map fst (elements s'))"
    using keeps_wellFormed[OF assms(1,2)] by (simp add: wellFormed_iff)
  have r: "routerInstalled s' = routerInstalled s" using assms(2) by (simp add: keeps_def)
  show ?thesis
    unfolding installed_iff[OF d'] r
  proof (cases "routerInstalled s")
    case True
    then show "routerInstalled s \<or> (\<forall>g G. map_of (elements s') g = Some G \<longrightarrow> members G = [])"
      by simp
  next
    case False
    with assms(3) have e: "\<forall>g G. map_of (elements s) g = Some G \<longrightarrow> members G = []"
      unfolding installed_iff[OF d] by simp
    have "\<forall>g G. map_of (elements s') g = Some G \<longrightarrow> members G = []"
    proof (intro allI impI)
      fix g G assume "map_of (elements s') g = Some G"
      from keeps_Some[OF assms(2) this] e show "members G = []" by auto
    qed
    then show "routerInstalled s \<or> (\<forall>g G. map_of (elements s') g = Some G \<longrightarrow> members G = [])"
      by simp
  qed
qed

text \<open>A state that differs in the flags of the elements and in the trace.\<close>

lemma keeps_same_elements:
  "elements s' = elements s \<Longrightarrow> (\<And>x. config (heap s' x) = config (heap s x)) \<Longrightarrow>
   routerInstalled s' = routerInstalled s \<Longrightarrow> keeps s s'"
  by (simp add: keeps_def)

text \<open>A state in which the active element of \<open>g\<close> has become \<open>a\<close>, none or a member.\<close>

lemma keeps_active:
  assumes "map_of (elements s) g = Some G"
    and "elements s' = AList.map_entry g (\<lambda>G'. G'\<lparr>activeElement := a\<rparr>) (elements s)"
    and "a = activeElement G \<or> a = None \<or> (\<exists>x \<in> set (members G). a = Some x)"
    and "\<And>x. config (heap s' x) = config (heap s x)"
    and "routerInstalled s' = routerInstalled s"
  shows "keeps s s'"
  unfolding keeps_def
proof (intro conjI allI impI)
  show "map fst (elements s') = map fst (elements s)"
    by (simp add: assms(2) map_fst_map_entry)
  show "\<And>x. config (heap s' x) = config (heap s x)" by (rule assms(4))
  show "routerInstalled s' = routerInstalled s" by (rule assms(5))
next
  fix k K assume K: "map_of (elements s) k = Some K"
  show "\<exists>G'. map_of (elements s') k = Some G' \<and> members G' = members K \<and>
               fallback G' = fallback K \<and>
               (activeElement G' = activeElement K \<or> activeElement G' = None \<or>
                (\<exists>a \<in> set (members K). activeElement G' = Some a))"
  proof (cases "k = g")
    case True
    with K assms(1) have "K = G" by simp
    then show ?thesis using assms(1,3) True
      by (auto simp: assms(2) map_of_map_entry)
  next
    case False
    then show ?thesis using K by (simp add: assms(2) map_of_map_entry)
  qed
qed

text \<open>The state in which \<open>maybeActivateElement\<close> has thrown.\<close>

lemma maybeActivateElement_Inl:
  assumes "maybeActivateElement w el e s = Inl (err, s')"
  shows "(\<forall>x. config (heap s' x) = config (heap s x)) \<and> elements s' = elements s \<and>
         inheritedActive s' = inheritedActive s \<and> routerInstalled s' = routerInstalled s"
proof -
  let ?c = "heap s el"
  let ?g = "getRoutingGroupFromEl ?c"
  have toggled: "(\<forall>x. config (heap (toggleElementActive el b s) x) = config (heap s x)) \<and>
      elements (toggleElementActive el b s) = elements s \<and>
      inheritedActive (toggleElementActive el b s) = inheritedActive s \<and>
      routerInstalled (toggleElementActive el b s) = routerInstalled s" for b
    by (simp add: toggleElementActive_def emit_def)
  have hooks: "callHooks el ps e t = Inl (err, s') \<Longrightarrow>
      heap s' = heap t \<and> elements s' = elements t \<and>
      inheritedActive s' = inheritedActive t \<and> routerInstalled s' = routerInstalled t" for ps t
    using callHooks_Inl by blast
  have assigned: "assignActiveElement ?g el t = Inl (err, s') \<Longrightarrow> s' = t" for t
    by (auto simp: assignActiveElement_def split: slot.splits)
  from assms show ?thesis
    unfolding maybeActivateElement_def Let_def
    by (auto split: sum.splits if_splits bool.splits
        dest!: hooks assigned callHooks_Inr simp: toggled)
qed

lemma maybeActivateElement_keeps:
  assumes G: "map_of (elements s) (getRoutingGroupFromEl (heap s el)) = Some G"
    and mem: "el \<in> set (members G)"
  shows "keeps s (stateAfter2 (maybeActivateElement w el e s))"
proof (cases "maybeActivateElement w el e s")
  case (Inl thrown)
  obtain err s' where "thrown = (err, s')" by (cases thrown)
  with Inl have r: "maybeActivateElement w el e s = Inl (err, s')" by simp
  from maybeActivateElement_Inl[OF r] have "keeps s s'"
    by (intro keeps_same_elements) simp_all
  then show ?thesis by (simp add: r stateAfter2_def)
next
  case (Inr res)
  obtain s' b where "res = (s', b)" by (cases res)
  with Inr have r: "maybeActivateElement w el e s = Inr (s', b)" by simp
  let ?c = "heap s el"
  let ?a = "if counts w ?c then Some el else activeElement G"
  from maybeActivateElement_step[OF G, of w e] r
  have h: "heap s' = (heap s)(el := stepFlag w (fallback G = Some el) ?c)"
    and el: "elements s' =
       AList.map_entry (getRoutingGroupFromEl ?c) (\<lambda>G'. G'\<lparr>activeElement := ?a\<rparr>) (elements s)"
    and ri: "routerInstalled s' = routerInstalled s"
    by (cases "stepOK w (activeElement G) el ?c"; auto)+
  have "keeps s s'"
  proof (rule keeps_active[OF G el])
    show "?a = activeElement G \<or> ?a = None \<or> (\<exists>x \<in> set (members G). ?a = Some x)"
      using mem by auto
    show "\<And>x. config (heap s' x) = config (heap s x)" by (simp add: h)
    show "routerInstalled s' = routerInstalled s" by (rule ri)
  qed
  then show ?thesis by (simp add: r stateAfter2_def)
qed

lemma activateMembers_keeps:
  assumes "wellFormed s" and "map_of (elements s) g = Some G"
    and "set L \<subseteq> set (members G)"
  shows "keeps s (stateAfter2 (activateMembers w e L s acc))"
  using assms
proof (induction L arbitrary: s G acc)
  case Nil
  then show ?case by (simp add: stateAfter2_def keeps_refl)
next
  case (Cons el L)
  from Cons.prems have mem: "el \<in> set (members G)" by simp
  with Cons.prems(1,2) have g: "getRoutingGroupFromEl (heap s el) = g"
    unfolding wellFormed_iff by blast
  then have Gel: "map_of (elements s) (getRoutingGroupFromEl (heap s el)) = Some G"
    using Cons.prems(2) by simp
  note k1 = maybeActivateElement_keeps[OF Gel mem, of w e]
  show ?case
  proof (cases "maybeActivateElement w el e s")
    case (Inl thrown)
    then show ?thesis using k1 by (simp add: stateAfter2_def)
  next
    case (Inr res)
    obtain s1 b where res: "res = (s1, b)" by (cases res)
    with Inr have r: "maybeActivateElement w el e s = Inr (s1, b)" by simp
    from k1 have k: "keeps s s1" by (simp add: r stateAfter2_def)
    have wf1: "wellFormed s1" by (rule keeps_wellFormed[OF Cons.prems(1) k])
    from k Cons.prems(2) obtain G1 where G1: "map_of (elements s1) g = Some G1"
      and m1: "members G1 = members G"
      unfolding keeps_def by blast
    have "set L \<subseteq> set (members G1)" using Cons.prems(3) by (simp add: m1)
    from Cons.IH[OF wf1 G1 this, of "acc \<or> b"]
    have "keeps s1 (stateAfter2 (activateMembers w e L s1 (acc \<or> b)))" .
    with k show ?thesis by (simp add: r) (rule keeps_trans)
  qed
qed

lemma callHooks_keeps: "keeps s (stateAfter (callHooks el ps e s))"
proof (cases "callHooks el ps e s")
  case (Inl thrown)
  obtain err s' where "thrown = (err, s')" by (cases thrown)
  with Inl have r: "callHooks el ps e s = Inl (err, s')" by simp
  from callHooks_Inl[OF r] show ?thesis
    by (simp add: r stateAfter_def keeps_def)
next
  case (Inr s')
  from callHooks_Inr[OF Inr] show ?thesis
    by (simp add: Inr stateAfter_def keeps_def)
qed

lemma activateGroup_keeps:
  assumes wf: "wellFormed s" and G: "map_of (elements s) g = Some G"
  shows "keeps s (stateAfter (activateGroup w e g s))"
proof -
  let ?s0 = "setActiveElement g None s"
  have k0: "keeps s ?s0"
    by (rule keeps_active[OF G, of _ None]) (simp_all add: setActiveElement_def)
  have wf0: "wellFormed ?s0" by (rule keeps_wellFormed[OF wf k0])
  have G0: "map_of (elements ?s0) g = Some (G\<lparr>activeElement := None\<rparr>)"
    by (simp add: setActiveElement_def map_of_map_entry_eq[OF G])
  have "keeps ?s0 (stateAfter2 (activateMembers w e (members G) ?s0 False))"
    by (rule activateMembers_keeps[OF wf0 G0]) simp
  with k0 have kl: "keeps s (stateAfter2 (activateMembers w e (members G) ?s0 False))"
    by (rule keeps_trans)
  show ?thesis
  proof (cases "activateMembers w e (members G) ?s0 False")
    case (Inl thrown)
    then show ?thesis using kl by (simp add: activateGroup_def G stateAfter_def stateAfter2_def)
  next
    case (Inr res)
    obtain s2 one where "res = (s2, one)" by (cases res)
    with Inr have r: "activateMembers w e (members G) ?s0 False = Inr (s2, one)" by simp
    from kl have k2: "keeps s s2" by (simp add: r stateAfter2_def)
    from k2 G obtain G2 where G2: "map_of (elements s2) g = Some G2"
      unfolding keeps_def by blast
    show ?thesis
    proof (cases "fallback G2")
      case None
      then show ?thesis using k2 by (simp add: activateGroup_def G r G2 stateAfter_def)
    next
      case (Some fb)
      let ?s3 = "toggleElementActive fb (\<not> one) s2"
      have k3: "keeps s2 ?s3"
        by (rule keeps_same_elements) (simp_all add: toggleElementActive_def emit_def)
      have run: "activateGroup w e g s =
          (if \<not> one then callHooks fb Map.empty e ?s3 else Inr ?s3)"
        by (simp add: activateGroup_def G r G2 Some Let_def)
      have "keeps ?s3 (stateAfter (activateGroup w e g s))"
      proof (cases one)
        case True
        then show ?thesis unfolding run by (simp add: stateAfter_def keeps_refl)
      next
        case False
        then show ?thesis unfolding run using callHooks_keeps[of ?s3 fb Map.empty e]
          by simp
      qed
      with keeps_trans[OF k2 k3] show ?thesis by (rule keeps_trans)
    qed
  qed
qed

lemma activateGroups_keeps:
  assumes "wellFormed s"
  shows "keeps s (stateAfter (activateGroups w e ks s))"
  using assms
proof (induction ks arbitrary: s)
  case Nil
  then show ?case by (simp add: stateAfter_def emit_def keeps_def)
next
  case (Cons g ks)
  show ?case
  proof (cases "map_of (elements s) g")
    case None
    then show ?thesis by (simp add: stateAfter_def keeps_refl)
  next
    case (Some G)
    note kg = activateGroup_keeps[OF Cons.prems Some, of w e]
    show ?thesis
    proof (cases "members G = []")
      case True
      then show ?thesis using Some by (simp add: stateAfter_def keeps_refl)
    next
      case False
      show ?thesis
      proof (cases "activateGroup w e g s")
        case (Inl thrown)
        then show ?thesis using kg Some False by (simp add: stateAfter_def)
      next
        case (Inr s1)
        from kg have k1: "keeps s s1" by (simp add: Inr stateAfter_def)
        from Cons.IH[OF keeps_wellFormed[OF Cons.prems k1]]
        have "keeps s1 (stateAfter (activateGroups w e ks s1))" .
        with k1 show ?thesis using Some False by (simp add: Inr) (rule keeps_trans)
      qed
    qed
  qed
qed

text \<open>
  A pass keeps the registry well-formed and the active elements among the members,
  whether it returns or throws.
\<close>

lemma activateCurrentPath_keeps:
  assumes "wellFormed s"
  shows "keeps s (stateAfter (activateCurrentPath w e s))"
  unfolding activateCurrentPath_def by (rule activateGroups_keeps[OF assms])

subsection \<open>The pass over one group of a well-formed registry\<close>

lemma flags_same:
  "activeProperty c = a \<Longrightarrow> activeAttribute c = b \<Longrightarrow>
   c\<lparr>activeProperty := a, activeAttribute := b\<rparr> = c"
  by simp

lemma activateGroup_wf:
  assumes wf: "wellFormed s" and G: "map_of (elements s) g = Some G"
  shows "(groupOK w (heap s) G \<longrightarrow>
          (\<exists>s'. activateGroup w e g s = Inr s' \<and>
           settled w s' g \<and>
           (\<forall>k. k \<noteq> g \<longrightarrow> settled w s k \<longrightarrow> settled w s' k) \<and>
           (settled w s g \<longrightarrow> heap s' = heap s \<and> elements s' = elements s) \<and>
           (\<exists>tr. trace s' = trace s @ tr \<and> hookCalls tr = groupHooks w (heap s) G))) \<and>
         (\<not> groupOK w (heap s) G \<longrightarrow> (\<exists>err s'. activateGroup w e g s = Inl (err, s')))"
proof (cases "groupOK w (heap s) G")
  case False
  from wf G have "\<forall>el \<in> set (members G). getRoutingGroupFromEl (heap s el) = g"
    unfolding wellFormed_iff by blast
  from activateGroup_pass[OF G this, of w e] False show ?thesis by blast
next
  case ok: True
  let ?L = "members G"
  let ?one = "\<exists>el \<in> set ?L. counts w (heap s el)"
  let ?AA = "activeAfter w (heap s) ?L None"
  let ?G' = "G\<lparr>activeElement := ?AA\<rparr>"
  from wf have dist: "distinct (map fst (elements s))"
    and wfD: "\<And>k K. map_of (elements s) k = Some K \<Longrightarrow>
         (\<forall>el \<in> set (members K). getRoutingGroupFromEl (heap s el) = k) \<and>
         (\<forall>fb. fallback K = Some fb \<longrightarrow> getRoutingGroupFromEl (heap s fb) = k)"
    unfolding wellFormed_iff by blast+
  have grp: "\<forall>el \<in> set ?L. getRoutingGroupFromEl (heap s el) = g"
    using wfD[OF G] by blast
  from activateGroup_pass[OF G grp, of w e] ok
  obtain s' tr where
    run: "activateGroup w e g s = Inr s'"
    and h: "heap s' =
             (\<lambda>x. if fallback G = Some x
                  then (heap s x)\<lparr>activeProperty := \<not> ?one, activeAttribute := \<not> ?one\<rparr>
                  else if x \<in> set ?L then stepFlag w False (heap s x)
                  else heap s x)"
    and el: "elements s' = AList.map_entry g (\<lambda>G'. G'\<lparr>activeElement := ?AA\<rparr>) (elements s)"
    and t: "trace s' = trace s @ tr @
                   (case fallback G of
                      None \<Rightarrow> []
                    | Some fb \<Rightarrow>
                       if ?one then []
                       else RouteActivated fb # hookEvents (heap s fb) fb Map.empty e)"
    and k: "hookCalls tr = memberHooks w (heap s) ?L None"
    by blast
  have cfg: "config (heap s' x) = config (heap s x)" for x
    by (simp add: h)
  have mo: "map_of (elements s') k = (if k = g then Some ?G' else map_of (elements s) k)" for k
    by (simp add: el map_of_map_entry G)
  have frame: "heap s' x = heap s x" if "getRoutingGroupFromEl (heap s x) \<noteq> g" for x
    using that wfD[OF G] by (auto simp: h)
  have cnt: "counts w (heap s' x) = counts w (heap s x)" for x
    by (rule config_cong(6)[OF cfg])
  have aa: "activeAfter w (heap s') M a = activeAfter w (heap s) M a" for M a
    by (rule activeAfter_cong) (rule cfg)
  have st: "settled w s' g"
  proof -
    have "\<forall>x \<in> set ?L. fallback G \<noteq> Some x \<longrightarrow> stepFlag w False (heap s' x) = heap s' x"
      by (simp add: h)
    moreover have "\<forall>fb. fallback G = Some fb \<longrightarrow>
        activeProperty (heap s' fb) = (\<not> ?one) \<and> activeAttribute (heap s' fb) = (\<not> ?one)"
      by (simp add: h)
    ultimately show ?thesis
      by (simp add: settled_def mo aa cnt split: option.splits)
  qed
  have st_other: "\<forall>k. k \<noteq> g \<longrightarrow> settled w s k \<longrightarrow> settled w s' k"
  proof (intro allI impI)
    fix k assume kg: "k \<noteq> g" and sk: "settled w s k"
    show "settled w s' k"
    proof (cases "map_of (elements s) k")
      case None
      then show ?thesis using kg by (simp add: settled_def mo)
    next
      case (Some K)
      have same: "heap s' x = heap s x" if "x \<in> set (members K) \<or> fallback K = Some x" for x
        using that wfD[OF Some] kg by (intro frame) auto
      have "\<forall>x \<in> set (members K). fallback K \<noteq> Some x \<longrightarrow>
          stepFlag w False (heap s' x) = heap s' x"
        using sk by (simp add: settled_def Some same)
      moreover have "\<forall>fb. fallback K = Some fb \<longrightarrow>
          activeProperty (heap s' fb) = (\<not> (\<exists>el \<in> set (members K). counts w (heap s el))) \<and>
          activeAttribute (heap s' fb) = (\<not> (\<exists>el \<in> set (members K). counts w (heap s el)))"
        using sk by (auto simp: settled_def Some same)
      moreover have "activeElement K = activeAfter w (heap s) (members K) None"
        using sk by (simp add: settled_def Some)
      ultimately show ?thesis using kg
        by (simp add: settled_def mo Some aa cnt split: option.splits)
    qed
  qed
  have fixed: "settled w s g \<longrightarrow> heap s' = heap s \<and> elements s' = elements s"
  proof (intro impI conjI)
    assume sg: "settled w s g"
    then have ae: "activeElement G = ?AA"
      and mem: "\<forall>x \<in> set ?L. fallback G \<noteq> Some x \<longrightarrow> stepFlag w False (heap s x) = heap s x"
      and fb: "\<forall>fb. fallback G = Some fb \<longrightarrow>
          activeProperty (heap s fb) = (\<not> ?one) \<and> activeAttribute (heap s fb) = (\<not> ?one)"
      by (auto simp: settled_def G split: option.splits)
    show "heap s' = heap s"
    proof (rule ext)
      fix x show "heap s' x = heap s x"
        using mem fb by (auto simp: h intro: flags_same)
    qed
    show "elements s' = elements s"
      unfolding el by (rule map_entry_same[OF G]) (simp add: ae[symmetric])
  qed
  have hk: "\<exists>tr. trace s' = trace s @ tr \<and> hookCalls tr = groupHooks w (heap s) G"
  proof (intro exI conjI)
    show "trace s' = trace s @ (tr @ (case fallback G of
                      None \<Rightarrow> []
                    | Some fb \<Rightarrow>
                       if ?one then []
                       else RouteActivated fb # hookEvents (heap s fb) fb Map.empty e))"
      by (simp add: t)
    show "hookCalls (tr @ (case fallback G of
                      None \<Rightarrow> []
                    | Some fb \<Rightarrow>
                       if ?one then []
                       else RouteActivated fb # hookEvents (heap s fb) fb Map.empty e)) =
          groupHooks w (heap s) G"
      by (simp add: k groupHooks_def split: option.splits)
  qed
  from run st st_other fixed hk ok show ?thesis by blast
qed

subsection \<open>The loop over the groups of a well-formed registry\<close>

lemma groupHooks_cong:
  assumes "members G' = members G" "fallback G' = fallback G"
    and "\<And>x. config (h' x) = config (h x)"
  shows "groupHooks w h' G' = groupHooks w h G"
proof -
  have "memberHooks w h' (members G) None = memberHooks w h (members G) None"
    by (rule memberHooks_cong) (rule assms(3))
  moreover have "counts w (h' x) = counts w (h x)" for x
    by (rule config_cong(6)[OF assms(3)])
  moreover have "hookEvents (h' x) = hookEvents (h x)" for x
    by (rule config_cong(7)[OF assms(3)])
  ultimately show ?thesis
    by (simp add: groupHooks_def assms(1,2) split: option.splits)
qed

lemma groupOK_cong:
  assumes "members G' = members G" "fallback G' = fallback G"
    and "\<And>x. config (h' x) = config (h x)"
  shows "groupOK w h' G' = groupOK w h G"
proof -
  have "membersOK w h' (members G) None = membersOK w h (members G) None"
    by (rule membersOK_cong) (rule assms(3))
  moreover have "counts w (h' x) = counts w (h x)" for x
    by (rule config_cong(6)[OF assms(3)])
  moreover have "hooksReturn (h' x) = hooksReturn (h x)" for x
    by (rule config_cong(10)[OF assms(3)])
  ultimately show ?thesis
    by (simp add: groupOK_def assms(1,2) split: option.splits)
qed

lemma keeps_reconciled:
  assumes "keeps s s'"
  shows "reconciled s' ks = reconciled s ks"
proof (induction ks)
  case Nil
  then show ?case by simp
next
  case (Cons g ks)
  show ?case
  proof (cases "map_of (elements s) g")
    case None
    with keeps_None[OF assms, of g] show ?thesis by simp
  next
    case (Some G)
    with assms obtain G' where "map_of (elements s') g = Some G'" "members G' = members G"
      unfolding keeps_def by blast
    with Some Cons show ?thesis by simp
  qed
qed

lemma keeps_passHooks:
  assumes "keeps s s'"
  shows "passHooks w s' ks = passHooks w s ks"
proof (induction ks)
  case Nil
  then show ?case by simp
next
  case (Cons g ks)
  show ?case
  proof (cases "map_of (elements s) g")
    case None
    with keeps_None[OF assms, of g] show ?thesis by simp
  next
    case (Some G)
    with assms obtain G' where G': "map_of (elements s') g = Some G'"
      "members G' = members G" "fallback G' = fallback G"
      unfolding keeps_def by blast
    have "groupHooks w (heap s') G' = groupHooks w (heap s) G"
      using assms by (intro groupHooks_cong G'(2,3)) (simp add: keeps_def)
    with Some Cons G' show ?thesis by simp
  qed
qed

lemma keeps_passOK:
  assumes "keeps s s'"
  shows "passOK w s' ks = passOK w s ks"
proof (induction ks)
  case Nil
  then show ?case by simp
next
  case (Cons g ks)
  show ?case
  proof (cases "map_of (elements s) g")
    case None
    with keeps_None[OF assms, of g] show ?thesis by simp
  next
    case (Some G)
    with assms obtain G' where G': "map_of (elements s') g = Some G'"
      "members G' = members G" "fallback G' = fallback G"
      unfolding keeps_def by blast
    have "groupOK w (heap s') G' = groupOK w (heap s) G"
      using assms by (intro groupOK_cong G'(2,3)) (simp add: keeps_def)
    with Some Cons G' show ?thesis by simp
  qed
qed

lemma settled_same:
  "heap s' = heap s \<Longrightarrow> elements s' = elements s \<Longrightarrow> settled w s' g = settled w s g"
  by (simp add: settled_def cong: option.case_cong)

lemma activateGroups_wf:
  assumes "wellFormed s" "distinct ks"
  shows "(passOK w s ks \<longrightarrow>
          (\<exists>s'. activateGroups w e ks s = Inr s' \<and>
           (\<forall>g \<in> set (reconciled s ks). settled w s' g) \<and>
           (\<forall>k. k \<notin> set ks \<longrightarrow> settled w s k \<longrightarrow> settled w s' k) \<and>
           ((\<forall>g \<in> set (reconciled s ks). settled w s g) \<longrightarrow>
              heap s' = heap s \<and> elements s' = elements s) \<and>
           (\<exists>tr. trace s' = trace s @ tr \<and> hookCalls tr = passHooks w s ks))) \<and>
         (\<not> passOK w s ks \<longrightarrow> (\<exists>err s'. activateGroups w e ks s = Inl (err, s')))"
  using assms
proof (induction ks arbitrary: s)
  case Nil
  let ?s' = "emit [LogElements] s"
  have hs: "heap ?s' = heap s" "elements ?s' = elements s"
    by (simp_all add: emit_def)
  have "activateGroups w e [] s = Inr ?s'" by simp
  moreover have "trace ?s' = trace s @ [LogElements]" by (simp add: emit_def)
  moreover have "hookCalls [LogElements] = passHooks w s []" by simp
  ultimately show ?case
    using settled_same[OF hs] hs by auto
next
  case (Cons g ks)
  show ?case
  proof (cases "map_of (elements s) g")
    case None
    then show ?thesis by simp
  next
    case (Some G)
    note G = Some
    show ?thesis
    proof (cases "members G = []")
      case True
      have "activateGroups w e (g # ks) s = Inr s" by (simp add: G True)
      moreover have "reconciled s (g # ks) = []" "passHooks w s (g # ks) = []"
        "passOK w s (g # ks)"
        by (simp_all add: G True)
      ultimately show ?thesis by auto
    next
      case False
      note grp = activateGroup_wf[OF Cons.prems(1) G, of w e]
      show ?thesis
      proof (cases "groupOK w (heap s) G")
        case no: False
        with grp obtain err s' where "activateGroup w e g s = Inl (err, s')" by blast
        then show ?thesis using no by (simp add: G False)
      next
        case ok: True
        with grp obtain s1 tr1 where
          run1: "activateGroup w e g s = Inr s1"
          and st1: "settled w s1 g"
          and so1: "\<forall>k. k \<noteq> g \<longrightarrow> settled w s k \<longrightarrow> settled w s1 k"
          and fx1: "settled w s g \<longrightarrow> heap s1 = heap s \<and> elements s1 = elements s"
          and t1: "trace s1 = trace s @ tr1" and h1: "hookCalls tr1 = groupHooks w (heap s) G"
          by blast
        from activateGroup_keeps[OF Cons.prems(1) G, of w e]
        have kp1: "keeps s s1" by (simp add: run1 stateAfter_def)
        have wf1: "wellFormed s1" by (rule keeps_wellFormed[OF Cons.prems(1) kp1])
        have dks: "distinct ks" and gks: "g \<notin> set ks" using Cons.prems(2) by auto
        have rec: "reconciled s1 ks = reconciled s ks" by (rule keeps_reconciled[OF kp1])
        have ph: "passHooks w s1 ks = passHooks w s ks" by (rule keeps_passHooks[OF kp1])
        have po: "passOK w s1 ks = passOK w s ks" by (rule keeps_passOK[OF kp1])
        have unfold: "activateGroups w e (g # ks) s = activateGroups w e ks s1"
          by (simp add: G False run1)
        have pok: "passOK w s (g # ks) = passOK w s1 ks"
          using ok by (simp add: G False po)
        note IH = Cons.IH[OF wf1 dks]
        show ?thesis
        proof (cases "passOK w s1 ks")
          case False
          with IH obtain err s' where "activateGroups w e ks s1 = Inl (err, s')" by blast
          then show ?thesis using False unfolding pok unfold by simp
        next
          case True
          with IH obtain s' tr where
            run: "activateGroups w e ks s1 = Inr s'"
            and st: "\<forall>g \<in> set (reconciled s1 ks). settled w s' g"
            and so: "\<forall>k. k \<notin> set ks \<longrightarrow> settled w s1 k \<longrightarrow> settled w s' k"
            and fx: "(\<forall>g \<in> set (reconciled s1 ks). settled w s1 g) \<longrightarrow>
                    heap s' = heap s1 \<and> elements s' = elements s1"
            and t: "trace s' = trace s1 @ tr" and h: "hookCalls tr = passHooks w s1 ks"
            by blast
          have c1: "activateGroups w e (g # ks) s = Inr s'"
            unfolding unfold by (rule run)
          have c4: "\<forall>k \<in> set (reconciled s (g # ks)). settled w s' k"
            using st st1 so gks by (auto simp: G False rec)
          have c5: "\<forall>k. k \<notin> set (g # ks) \<longrightarrow> settled w s k \<longrightarrow> settled w s' k"
            using so so1 by auto
          have c6: "(\<forall>k \<in> set (reconciled s (g # ks)). settled w s k) \<longrightarrow>
                    heap s' = heap s \<and> elements s' = elements s"
          proof
            assume a: "\<forall>k \<in> set (reconciled s (g # ks)). settled w s k"
            then have "settled w s g" by (simp add: G False)
            with fx1 have e: "heap s1 = heap s" "elements s1 = elements s" by auto
            have "\<forall>k \<in> set (reconciled s1 ks). settled w s1 k"
              using a by (simp add: G False rec settled_same[OF e])
            with fx e show "heap s' = heap s \<and> elements s' = elements s" by simp
          qed
          have c7: "trace s' = trace s @ (tr1 @ tr)" by (simp add: t t1)
          have c8: "hookCalls (tr1 @ tr) = passHooks w s (g # ks)"
            by (simp add: G False h h1 ph)
          from c1 c4 c5 c6 c7 c8 True show ?thesis unfolding pok by blast
        qed
      qed
    qed
  qed
qed

lemma activateCurrentPath_wf:
  assumes "wellFormed s"
  shows "(passOK w s (map fst (elements s)) \<longrightarrow>
          (\<exists>s'. activateCurrentPath w e s = Inr s' \<and>
           (\<forall>g \<in> set (reconciled s (map fst (elements s))). settled w s' g) \<and>
           ((\<forall>g \<in> set (reconciled s (map fst (elements s))). settled w s g) \<longrightarrow>
              heap s' = heap s \<and> elements s' = elements s) \<and>
           (\<exists>tr. trace s' = trace s @ tr \<and>
                 hookCalls tr = passHooks w s (map fst (elements s))))) \<and>
         (\<not> passOK w s (map fst (elements s)) \<longrightarrow>
          (\<exists>err s'. activateCurrentPath w e s = Inl (err, s')))"
proof -
  have "distinct (map fst (elements s))" using assms by (simp add: wellFormed_def)
  from activateGroups_wf[OF assms this, of w e] show ?thesis
    unfolding activateCurrentPath_def by blast
qed

text \<open>
  C2, as amended. On a well-formed registry \<open>activateCurrentPath\<close> returns exactly
  when, in every group that it passes over, no call of \<open>locationMatch\<close> throws and the
  hooks that are called return (\<open>passOK\<close>). When it has returned, a second run at the
  same location returns too and leaves every element (so every active flag) and every
  group (so every active element) as the first run left them. The second run calls
  the hooks that the first run called, with the same parameters and in the same order,
  and these are the hooks of \<open>passHooks\<close>: in every group passed over, the hooks of
  every member that matches and is disabled or is not the active element of the group
  at that moment, and then the hooks of the fallback, with the empty object, when no
  member counts. At the start of the pass over a group its active element is reset
  (line 185), so the test of line 161 holds for the first occurrence of every member
  that matches.
\<close>

theorem activateCurrentPath_twice:
  assumes "wellFormed s"
  shows "(\<exists>s1. activateCurrentPath w e1 s = Inr s1) = passOK w s (map fst (elements s)) \<and>
         (\<forall>s1. activateCurrentPath w e1 s = Inr s1 \<longrightarrow>
            (\<exists>s2 t1 t2.
               activateCurrentPath w e2 s1 = Inr s2 \<and>
               heap s2 = heap s1 \<and> elements s2 = elements s1 \<and>
               trace s1 = trace s @ t1 \<and> trace s2 = trace s1 @ t2 \<and>
               hookCalls t2 = hookCalls t1 \<and>
               hookCalls t1 = passHooks w s (map fst (elements s))))"
proof (intro conjI allI impI)
  let ?ks = "map fst (elements s)"
  note pass = activateCurrentPath_wf[OF assms, of w e1]
  show "(\<exists>s1. activateCurrentPath w e1 s = Inr s1) = passOK w s ?ks"
    using pass by (cases "passOK w s ?ks") auto
  fix s1 assume run1: "activateCurrentPath w e1 s = Inr s1"
  with pass have ok: "passOK w s ?ks" by (cases "passOK w s ?ks") auto
  with pass run1 obtain t1 where
    st: "\<forall>g \<in> set (reconciled s ?ks). settled w s1 g"
    and t1: "trace s1 = trace s @ t1" and h1: "hookCalls t1 = passHooks w s ?ks"
    by auto
  from activateCurrentPath_keeps[OF assms, of w e1]
  have kp: "keeps s s1" by (simp add: run1 stateAfter_def)
  have wf1: "wellFormed s1" by (rule keeps_wellFormed[OF assms kp])
  have ks: "map fst (elements s1) = ?ks" using kp by (simp add: keeps_def)
  have ok1: "passOK w s1 ?ks" using ok by (simp add: keeps_passOK[OF kp])
  from activateCurrentPath_wf[OF wf1, of w e2] ok1
  obtain s2 t2 where
    run2: "activateCurrentPath w e2 s1 = Inr s2"
    and fx: "(\<forall>g \<in> set (reconciled s1 ?ks). settled w s1 g) \<longrightarrow>
              heap s2 = heap s1 \<and> elements s2 = elements s1"
    and t2: "trace s2 = trace s1 @ t2" and h2: "hookCalls t2 = passHooks w s1 ?ks"
    unfolding ks by blast
  have "heap s2 = heap s1 \<and> elements s2 = elements s1"
    using fx st by (simp add: keeps_reconciled[OF kp])
  moreover have "hookCalls t2 = hookCalls t1"
    by (simp add: h1 h2 keeps_passHooks[OF kp])
  ultimately show "\<exists>s2 t1 t2.
               activateCurrentPath w e2 s1 = Inr s2 \<and>
               heap s2 = heap s1 \<and> elements s2 = elements s1 \<and>
               trace s1 = trace s @ t1 \<and> trace s2 = trace s1 @ t2 \<and>
               hookCalls t2 = hookCalls t1 \<and>
               hookCalls t1 = passHooks w s ?ks"
    using run2 t1 t2 h1 by blast
qed

theorem activateCurrentPath_twice_witness:
  "wellFormed
     (registry ((\<lambda>_. blank)(0 := page ''/a'', 1 := blank\<lparr>fallbackAttribute := True\<rparr>))
        [(''default'', \<lparr>members = [0, 1], fallback = Some 1, activeElement = None\<rparr>)]) \<and>
   passOK (browser ''/b'' '''')
     (registry ((\<lambda>_. blank)(0 := page ''/a'', 1 := blank\<lparr>fallbackAttribute := True\<rparr>))
        [(''default'', \<lparr>members = [0, 1], fallback = Some 1, activeElement = None\<rparr>)])
     [''default''] \<and>
   activateCurrentPath (browser ''/b'' '''') (Some 1)
     (registry ((\<lambda>_. blank)(0 := page ''/a'', 1 := blank\<lparr>fallbackAttribute := True\<rparr>))
        [(''default'', \<lparr>members = [0, 1], fallback = Some 1, activeElement = None\<rparr>)]) =
   Inr \<lparr> heap = (\<lambda>_. blank)
                  (0 := page ''/a'',
                   1 := blank\<lparr>fallbackAttribute := True, activeProperty := True,
                              activeAttribute := True\<rparr>),
         elements = [(''default'', \<lparr>members = [0, 1], fallback = Some 1, activeElement = None\<rparr>)],
         inheritedActive = Map.empty, routerInstalled = True,
         trace = [RouteActivated 1, PreRouterCallback 1 Map.empty (Some 1),
                  RouterCallback 1 Map.empty (Some 1), LogElements] \<rparr> \<and>
   activateCurrentPath (browser ''/b'' '''') (Some 2)
     \<lparr> heap = (\<lambda>_. blank)
                  (0 := page ''/a'',
                   1 := blank\<lparr>fallbackAttribute := True, activeProperty := True,
                              activeAttribute := True\<rparr>),
       elements = [(''default'', \<lparr>members = [0, 1], fallback = Some 1, activeElement = None\<rparr>)],
       inheritedActive = Map.empty, routerInstalled = True,
       trace = [RouteActivated 1, PreRouterCallback 1 Map.empty (Some 1),
                RouterCallback 1 Map.empty (Some 1), LogElements] \<rparr> =
   Inr \<lparr> heap = (\<lambda>_. blank)
                  (0 := page ''/a'',
                   1 := blank\<lparr>fallbackAttribute := True, activeProperty := True,
                              activeAttribute := True\<rparr>),
         elements = [(''default'', \<lparr>members = [0, 1], fallback = Some 1, activeElement = None\<rparr>)],
         inheritedActive = Map.empty, routerInstalled = True,
         trace = [RouteActivated 1, PreRouterCallback 1 Map.empty (Some 1),
                  RouterCallback 1 Map.empty (Some 1), LogElements,
                  RouteActivated 1, PreRouterCallback 1 Map.empty (Some 2),
                  RouterCallback 1 Map.empty (Some 2), LogElements] \<rparr> \<and>
   passHooks (browser ''/b'' '''')
     (registry ((\<lambda>_. blank)(0 := page ''/a'', 1 := blank\<lparr>fallbackAttribute := True\<rparr>))
        [(''default'', \<lparr>members = [0, 1], fallback = Some 1, activeElement = None\<rparr>)])
     [''default''] =
   [PreRouterCallback 1 Map.empty None, RouterCallback 1 Map.empty None]"
  using activateCurrentPath_twice [of
      "registry ((\<lambda>_. blank)(0 := page ''/a'', 1 := blank\<lparr>fallbackAttribute := True\<rparr>))
        [(''default'', \<lparr>members = [0, 1], fallback = Some 1, activeElement = None\<rparr>)]"
      "browser ''/b'' ''''" "Some 1" "Some 2"]
  by (simp add: wellFormed_def activateCurrentPath_def activateGroup_def
      maybeActivateElement_def el_defs op_defs url_defs Let_def
      groupOK_def stepOK_def parses_def hooked_def matches_def matched_def hooksReturn_def
      counts_def groupHooks_def hookEvents_def matchParams_def)

text \<open>
  C2, as stated, fails at a registry with one page of path \<open>/a\<close> and the location
  \<open>/a\<close>: the second run changes neither the element nor the group, and calls the
  pre-activation hook and the activation hook of the page again.
\<close>

theorem activateCurrentPath_twice_calls_hooks:
  "activateCurrentPath (browser ''/a'' '''') (Some 1)
     (registry (\<lambda>_. page ''/a'')
        [(''default'', \<lparr>members = [0], fallback = None, activeElement = None\<rparr>)]) =
   Inr \<lparr> heap = (\<lambda>_. page ''/a'')
                  (0 := (page ''/a'')\<lparr>activeProperty := True, activeAttribute := True\<rparr>),
         elements = [(''default'', \<lparr>members = [0], fallback = None, activeElement = Some 0\<rparr>)],
         inheritedActive = Map.empty, routerInstalled = True,
         trace = [RouteActivated 0, PreRouterCallback 0 Map.empty (Some 1),
                  RouterCallback 0 Map.empty (Some 1), LogElements] \<rparr> \<and>
   activateCurrentPath (browser ''/a'' '''') (Some 2)
     \<lparr> heap = (\<lambda>_. page ''/a'')
                (0 := (page ''/a'')\<lparr>activeProperty := True, activeAttribute := True\<rparr>),
       elements = [(''default'', \<lparr>members = [0], fallback = None, activeElement = Some 0\<rparr>)],
       inheritedActive = Map.empty, routerInstalled = True,
       trace = [RouteActivated 0, PreRouterCallback 0 Map.empty (Some 1),
                RouterCallback 0 Map.empty (Some 1), LogElements] \<rparr> =
   Inr \<lparr> heap = (\<lambda>_. page ''/a'')
                  (0 := (page ''/a'')\<lparr>activeProperty := True, activeAttribute := True\<rparr>),
         elements = [(''default'', \<lparr>members = [0], fallback = None, activeElement = Some 0\<rparr>)],
         inheritedActive = Map.empty, routerInstalled = True,
         trace = [RouteActivated 0, PreRouterCallback 0 Map.empty (Some 1),
                  RouterCallback 0 Map.empty (Some 1), LogElements,
                  PreRouterCallback 0 Map.empty (Some 2),
                  RouterCallback 0 Map.empty (Some 2), LogElements] \<rparr>"
  by (simp add: activateCurrentPath_def activateGroup_def
      maybeActivateElement_def el_defs op_defs url_defs Let_def)

subsection \<open>The invariant of the registry\<close>

lemma keeps_invariant: "invariant s \<Longrightarrow> keeps s s' \<Longrightarrow> invariant s'"
  unfolding invariant_def
  using keeps_wellFormed keeps_installed keeps_activeIsMember by blast

text \<open>What is thrown in a pass is a \<open>TypeError\<close> or what a hook throws.\<close>

lemma firstMatch_error: "firstMatch w ts c = Inl err \<Longrightarrow> err = TypeError"
  using firstMatch_cases[of w ts c] by auto

lemma locationMatch_error: "locationMatch w p c = Inl err \<Longrightarrow> err = TypeError"
  using firstMatch_error[of w _ c err]
  by (cases p) (auto simp: locationMatch_def executor_throws split: if_splits)

lemma maybeActivateElement_error:
  assumes "maybeActivateElement w el e s = Inl (err, s')"
  shows "err \<noteq> Interleaved"
proof -
  have f: "fallbackAt t g = Inl x \<Longrightarrow> x = TypeError" for t g x
    by (auto simp: fallbackAt_def split: slot.splits)
  have a: "activeElementAt t g = Inl x \<Longrightarrow> x = TypeError" for t g x
    by (auto simp: activeElementAt_def split: slot.splits)
  have b: "assignActiveElement g el t = Inl (x, t') \<Longrightarrow> x = TypeError" for t g x t'
    by (auto simp: assignActiveElement_def split: slot.splits)
  have h: "callHooks el ps e t = Inl (x, t') \<Longrightarrow> x = HookError" for ps t x t'
    using callHooks_Inl by blast
  from assms show ?thesis
    unfolding maybeActivateElement_def Let_def
    by (auto split: sum.splits if_splits bool.splits
        dest!: f a b h locationMatch_error)
qed

lemma activateMembers_error:
  "activateMembers w e L s acc = Inl (err, s') \<Longrightarrow> err \<noteq> Interleaved"
proof (induction L arbitrary: s acc)
  case Nil
  then show ?case by simp
next
  case (Cons el L)
  show ?case
  proof (cases "maybeActivateElement w el e s")
    case (Inl thrown)
    with Cons.prems have "maybeActivateElement w el e s = Inl (err, s')" by simp
    then show ?thesis by (rule maybeActivateElement_error)
  next
    case (Inr res)
    obtain s1 b where "res = (s1, b)" by (cases res)
    with Inr Cons.prems have "activateMembers w e L s1 (acc \<or> b) = Inl (err, s')" by simp
    then show ?thesis by (rule Cons.IH)
  qed
qed

lemma activateGroup_error:
  assumes "activateGroup w e g s = Inl (err, s')"
  shows "err \<noteq> Interleaved"
proof -
  have h: "callHooks el ps e t = Inl (x, t') \<Longrightarrow> x = HookError" for el ps t x t'
    using callHooks_Inl by blast
  from assms show ?thesis
    unfolding activateGroup_def Let_def
    by (auto split: option.splits sum.splits if_splits
        dest!: h activateMembers_error)
qed

lemma activateGroups_error:
  "activateGroups w e ks s = Inl (err, s') \<Longrightarrow> err \<noteq> Interleaved"
proof (induction ks arbitrary: s)
  case Nil
  then show ?case by simp
next
  case (Cons g ks)
  show ?case
  proof (cases "map_of (elements s) g")
    case None
    with Cons.prems show ?thesis by auto
  next
    case (Some G)
    show ?thesis
    proof (cases "members G = []")
      case True
      with Cons.prems Some show ?thesis by simp
    next
      case False
      show ?thesis
      proof (cases "activateGroup w e g s")
        case (Inl thrown)
        with Cons.prems Some False have "activateGroup w e g s = Inl (err, s')" by simp
        then show ?thesis by (rule activateGroup_error)
      next
        case (Inr s1)
        with Cons.prems Some False have "activateGroups w e ks s1 = Inl (err, s')" by simp
        then show ?thesis by (rule Cons.IH)
      qed
    qed
  qed
qed

lemma set_insertGroup: "set (insertGroup k v xs) = insert (k, v) (set xs)"
proof (induction xs)
  case Nil
  then show ?case by simp
next
  case (Cons p xs)
  obtain k' v' where p: "p = (k', v')" by (cases p)
  show ?case
    unfolding p by (simp add: Cons.IH insert_commute split: option.splits)
qed

lemma distinct_insertGroup:
  "distinct (map fst xs) \<Longrightarrow> k \<notin> fst ` set xs \<Longrightarrow> distinct (map fst (insertGroup k v xs))"
proof (induction xs)
  case Nil
  then show ?case by simp
next
  case (Cons p xs)
  obtain k' v' where p: "p = (k', v')" by (cases p)
  from Cons.prems have d: "distinct (map fst xs)" and k': "k' \<notin> fst ` set xs"
    and k: "k \<notin> fst ` set xs" and kk: "k \<noteq> k'"
    by (auto simp: p)
  have "fst ` set (insertGroup k v xs) = insert k (fst ` set xs)"
    by (simp add: set_insertGroup)
  with Cons.IH[OF d k] d k' k kk show ?case
    unfolding p by (simp split: option.splits)
qed

text \<open>A state with the same groups, and elements of the same routing groups.\<close>

lemma inv_same:
  assumes "elements s' = elements s"
    and "\<forall>x. getRoutingGroupFromEl (heap s' x) = getRoutingGroupFromEl (heap s x)"
    and "routerInstalled s \<longrightarrow> routerInstalled s'"
    and "invariant s"
  shows "invariant s'"
  using assms(3,4)
  by (auto simp: invariant_def wellFormed_def activeIsMember_def installed_def assms(1,2)
      cong: option.case_cong)

text \<open>A state in which the group \<open>g\<close> has become \<open>f G\<close>.\<close>

lemma inv_entry:
  assumes inv: "invariant s" and G: "map_of (elements s) g = Some G"
    and el: "elements s' = AList.map_entry g f (elements s)"
    and grp: "\<forall>x. getRoutingGroupFromEl (heap s' x) = getRoutingGroupFromEl (heap s x)"
    and ri: "routerInstalled s' = routerInstalled s"
    and mem: "\<forall>el \<in> set (members (f G)). getRoutingGroupFromEl (heap s el) = g"
    and fb: "\<forall>fb. fallback (f G) = Some fb \<longrightarrow> getRoutingGroupFromEl (heap s fb) = g"
    and ins: "routerInstalled s \<or> members (f G) = []"
  shows "wellFormed s'" and "installed s'"
    and "(\<forall>a. activeElement (f G) = Some a \<longrightarrow> a \<in> set (members (f G))) \<Longrightarrow>
         activeIsMember s'"
proof -
  from inv have wf: "wellFormed s" and inst: "installed s" and a: "activeIsMember s"
    by (simp_all add: invariant_def)
  from wf have dist: "distinct (map fst (elements s))"
    and wfD: "\<And>k K. map_of (elements s) k = Some K \<Longrightarrow>
         (\<forall>el \<in> set (members K). getRoutingGroupFromEl (heap s el) = k) \<and>
         (\<forall>fb. fallback K = Some fb \<longrightarrow> getRoutingGroupFromEl (heap s fb) = k)"
    unfolding wellFormed_iff by blast+
  have dist': "distinct (map fst (elements s'))"
    by (simp add: el map_fst_map_entry dist)
  have mo: "map_of (elements s') k = (if k = g then Some (f G) else map_of (elements s) k)" for k
    by (simp add: el map_of_map_entry G)
  show "wellFormed s'"
    unfolding wellFormed_iff
  proof (intro conjI allI impI)
    show "distinct (map fst (elements s'))" by (rule dist')
  next
    fix k K assume K: "map_of (elements s') k = Some K"
    show "\<forall>el \<in> set (members K). getRoutingGroupFromEl (heap s' el) = k"
      using K mem wfD[of k K] by (cases "k = g") (auto simp: mo grp)
    fix b assume "fallback K = Some b"
    then show "getRoutingGroupFromEl (heap s' b) = k"
      using K fb wfD[of k K] by (cases "k = g") (auto simp: mo grp)
  qed
  show "installed s'"
    unfolding installed_iff[OF dist'] ri
  proof (cases "routerInstalled s")
    case True
    then show "routerInstalled s \<or> (\<forall>k K. map_of (elements s') k = Some K \<longrightarrow> members K = [])"
      by simp
  next
    case False
    with inst have e: "\<forall>k K. map_of (elements s) k = Some K \<longrightarrow> members K = []"
      unfolding installed_iff[OF dist] by simp
    from False ins have "members (f G) = []" by simp
    with e have "\<forall>k K. map_of (elements s') k = Some K \<longrightarrow> members K = []"
      by (auto simp: mo split: if_splits)
    then show "routerInstalled s \<or> (\<forall>k K. map_of (elements s') k = Some K \<longrightarrow> members K = [])"
      by simp
  qed
  assume n: "\<forall>a. activeElement (f G) = Some a \<longrightarrow> a \<in> set (members (f G))"
  show "activeIsMember s'"
    unfolding activeIsMember_iff[OF dist']
  proof (intro allI impI)
    fix k K x assume K: "map_of (elements s') k = Some K" and x: "activeElement K = Some x"
    show "x \<in> set (members K)"
    proof (cases "k = g")
      case True
      with K x n show ?thesis by (auto simp: mo)
    next
      case False
      with K have "map_of (elements s) k = Some K" by (simp add: mo)
      with a x show ?thesis unfolding activeIsMember_iff[OF dist] by blast
    qed
  qed
qed

lemma installed_group:
  assumes "invariant s" "map_of (elements s) g = Some G"
  shows "routerInstalled s \<or> members G = []"
proof -
  from assms(1) have d: "distinct (map fst (elements s))" and i: "installed s"
    by (simp_all add: invariant_def wellFormed_iff)
  from i assms(2) show ?thesis unfolding installed_iff[OF d] by blast
qed

text \<open>
  \<open>unregisterRoute\<close> keeps the registry well-formed, whether it returns or throws,
  and the active elements among the members when the element that it removes is not
  the active element of its group.
\<close>

lemma unregisterRoute_inv:
  assumes inv: "invariant s"
  shows "wellFormed (stateAfter (unregisterRoute el s))"
    and "installed (stateAfter (unregisterRoute el s))"
    and "(\<forall>G. map_of (elements s) (getRoutingGroupFromEl (heap s el)) = Some G \<longrightarrow>
              activeElement G \<noteq> Some el) \<Longrightarrow>
         activeIsMember (stateAfter (unregisterRoute el s))"
proof -
  let ?g = "getRoutingGroupFromEl (heap s el)"
  let ?f = "\<lambda>G. G\<lparr>members := filter (\<lambda>item. item \<noteq> el) (members G)\<rparr>"
  let ?t = "s\<lparr>elements := AList.map_entry ?g ?f (elements s)\<rparr>"
  from inv have wf: "wellFormed s" and ins: "installed s" and a: "activeIsMember s"
    by (simp_all add: invariant_def)
  have none: "stateAfter (unregisterRoute el s) = s" if "map_of (elements s) ?g = None"
    using that
    by (simp add: unregisterRoute_def elementsAt_def stateAfter_def Let_def
        split: option.splits)
  have some: "stateAfter (unregisterRoute el s) = ?t" if "map_of (elements s) ?g = Some G" for G
    using that by (simp add: unregisterRoute_def elementsAt_def stateAfter_def Let_def)
  have entry: "wellFormed ?t \<and> installed ?t \<and>
      ((\<forall>x. activeElement (?f G) = Some x \<longrightarrow> x \<in> set (members (?f G))) \<longrightarrow> activeIsMember ?t)"
    if G: "map_of (elements s) ?g = Some G" for G
  proof -
    from wf G have m: "\<forall>x \<in> set (members G). getRoutingGroupFromEl (heap s x) = ?g"
      and f: "\<forall>fb. fallback G = Some fb \<longrightarrow> getRoutingGroupFromEl (heap s fb) = ?g"
      unfolding wellFormed_iff by blast+
    have e: "elements ?t = AList.map_entry ?g ?f (elements s)" by simp
    have g: "\<forall>x. getRoutingGroupFromEl (heap ?t x) = getRoutingGroupFromEl (heap s x)"
      by simp
    have r: "routerInstalled ?t = routerInstalled s" by simp
    have m': "\<forall>x \<in> set (members (?f G)). getRoutingGroupFromEl (heap s x) = ?g"
      using m by simp
    have f': "\<forall>fb. fallback (?f G) = Some fb \<longrightarrow> getRoutingGroupFromEl (heap s fb) = ?g"
      using f by simp
    have i': "routerInstalled s \<or> members (?f G) = []"
      using installed_group[OF inv G] by auto
    from inv_entry[OF inv G e g r m' f' i'] show ?thesis by blast
  qed
  show "wellFormed (stateAfter (unregisterRoute el s))"
    using wf none some entry by (cases "map_of (elements s) ?g") auto
  show "installed (stateAfter (unregisterRoute el s))"
    using ins none some entry by (cases "map_of (elements s) ?g") auto
  assume n: "\<forall>G. map_of (elements s) ?g = Some G \<longrightarrow> activeElement G \<noteq> Some el"
  show "activeIsMember (stateAfter (unregisterRoute el s))"
  proof (cases "map_of (elements s) ?g")
    case None
    then show ?thesis using a none by simp
  next
    case (Some G)
    from wf have dist: "distinct (map fst (elements s))" by (simp add: wellFormed_def)
    have "activeElement G = Some x \<longrightarrow> x \<in> set (members G) \<and> x \<noteq> el" for x
      using a n Some unfolding activeIsMember_iff[OF dist] by blast
    then have "\<forall>x. activeElement (?f G) = Some x \<longrightarrow> x \<in> set (members (?f G))"
      by simp
    with entry[OF Some] show ?thesis by (simp add: some[OF Some])
  qed
qed

lemma group_registered [simp]:
  "getRoutingGroupFromEl (c\<lparr>routingRegistered := b\<rparr>) = getRoutingGroupFromEl c"
  by (simp add: getRoutingGroupFromEl_def)

lemma createGroup_inv:
  assumes inv: "invariant s"
  shows "invariant (createGroup g s)" and "heap (createGroup g s) = heap s"
    and "routerInstalled (createGroup g s) = routerInstalled s"
    and "elementsAt (createGroup g s) g \<noteq> NoValue"
proof -
  let ?t = "s\<lparr>elements := insertGroup g emptyGroup (elements s)\<rparr>"
  show "heap (createGroup g s) = heap s"
    and "routerInstalled (createGroup g s) = routerInstalled s"
    by (simp_all add: createGroup_def split: slot.splits)
  have new: "invariant ?t \<and> map_of (elements ?t) g = Some emptyGroup"
    if None: "map_of (elements s) g = None"
  proof -
    from inv have dist: "distinct (map fst (elements s))"
      by (simp add: invariant_def wellFormed_def)
    from None have k: "g \<notin> fst ` set (elements s)" by (simp add: map_of_eq_None_iff)
    have d: "distinct (map fst (elements ?t))"
      using distinct_insertGroup[OF dist k] by simp
    have "wellFormed ?t"
      using inv d by (simp add: invariant_def wellFormed_def set_insertGroup emptyGroup_def
          cong: option.case_cong)
    moreover have "activeIsMember ?t"
      using inv by (simp add: invariant_def activeIsMember_def set_insertGroup emptyGroup_def
          cong: option.case_cong)
    moreover have "installed ?t"
      using inv by (auto simp: invariant_def installed_def set_insertGroup emptyGroup_def)
    moreover have "(g, emptyGroup) \<in> set (elements ?t)"
      by (simp add: set_insertGroup)
    then have "map_of (elements ?t) g = Some emptyGroup"
      using d by (simp only: map_of_eq_Some_iff)
    ultimately show ?thesis by (simp add: invariant_def)
  qed
  show "invariant (createGroup g s)"
    using inv new by (auto simp: createGroup_def elementsAt_def split: option.splits)
  show "elementsAt (createGroup g s) g \<noteq> NoValue"
    using new by (auto simp: createGroup_def elementsAt_def split: option.splits)
qed

text \<open>
  \<open>registerRoute\<close> keeps the invariant, whether it returns or throws, and from a state
  with the invariant it does not leave the model.
\<close>

lemma registerRoute_inv:
  assumes inv: "invariant s"
  shows "invariant (stateAfter (registerRoute w el s))"
    and "registerRoute w el s \<noteq> Inl (Interleaved, s')"
proof -
  let ?g = "getRoutingGroupFromEl (heap s el)"
  let ?s1 = "createGroup ?g s"
  note s1 = createGroup_inv[OF inv, of ?g]
  let ?inst = "if \<not> routerInstalled ?s1
               then (case installRouter ?s1 of
                       Inl thrown \<Rightarrow> Inl thrown
                     | Inr s' \<Rightarrow> Inr (s'\<lparr>routerInstalled := True\<rparr>))
               else Inr ?s1"
  have "\<exists>s2. ?inst = Inr s2 \<and> invariant s2 \<and> routerInstalled s2 \<and>
      elements s2 = elements ?s1 \<and> heap s2 = heap s"
  proof (cases "routerInstalled ?s1")
    case True
    then show ?thesis using s1 by simp
  next
    case False
    have "\<exists>s0. installRouter ?s1 = Inr s0 \<and> elements s0 = elements ?s1 \<and> heap s0 = heap ?s1"
    proof (cases "elements ?s1")
      case Nil
      then show ?thesis by (simp add: installRouter_def emit_def)
    next
      case (Cons p rest)
      obtain g0 G0 where p: "p = (g0, G0)" by (cases p)
      from s1(1) False Cons have "members G0 = []"
        by (auto simp: invariant_def installed_def p)
      then show ?thesis by (simp add: installRouter_def Cons p)
    qed
    then obtain s0 where r0: "installRouter ?s1 = Inr s0"
      and e0: "elements s0 = elements ?s1" and h0: "heap s0 = heap ?s1"
      by blast
    let ?s2 = "s0\<lparr>routerInstalled := True\<rparr>"
    have "invariant ?s2"
      by (rule inv_same[OF _ _ _ s1(1)]) (simp_all add: e0 h0)
    then show ?thesis using False r0 e0 h0 s1(2) by simp
  qed
  then obtain s2 where r2: "?inst = Inr s2" and inv2: "invariant s2"
    and ri2: "routerInstalled s2" and e2: "elements s2 = elements ?s1"
    and h2: "heap s2 = heap s"
    by blast
  define s3 where "s3 = (if routingRegistered (heap s2 el)
                         then emit [RegisteredTwice el] s2 else s2)"
  define s4 where "s4 = s3\<lparr>heap := (heap s3)(el := (heap s3 el)\<lparr>routingRegistered := True\<rparr>)\<rparr>"
  define s5 where "s5 = s4\<lparr>elements :=
                        AList.map_entry ?g (\<lambda>G. G\<lparr>members := members G @ [el]\<rparr>)
                          (elements s4)\<rparr>"
  define s6 where "s6 = s5\<lparr>elements :=
                        AList.map_entry ?g
                          (\<lambda>G. if fallback G = None \<and> getFallbackFromEl (heap s5 el)
                                then G\<lparr>fallback := Some el\<rparr> else G)
                          (elements s5)\<rparr>"
  define tail where "tail =
      (case map_of (elements s6) ?g of
         None \<Rightarrow> Inl (TypeError, s6)
       | Some G \<Rightarrow>
          if fallback G = None
          then (case maybeActivateElement w el None s6 of
                  Inl thrown \<Rightarrow> Inl thrown
                | Inr (s7, isActive) \<Rightarrow> Inr s7)
          else activateCurrentPath w None s6)"
  have reg: "registerRoute w el s =
      (case elementsAt s4 ?g of
         NoValue \<Rightarrow> Inl (TypeError, s4)
       | InheritedValue \<Rightarrow> Inl (TypeError, s4)
       | ElementValue x \<Rightarrow> Inl (TypeError, s4)
       | OwnGroup G0 \<Rightarrow> tail)"
    unfolding tail_def s6_def s5_def s4_def s3_def registerRoute_def Let_def r2 by simp
  have e4: "elements s4 = elements s2"
    and g4: "\<forall>x. getRoutingGroupFromEl (heap s4 x) = getRoutingGroupFromEl (heap s2 x)"
    and ri4: "routerInstalled s4"
    using ri2 by (simp_all add: s4_def s3_def emit_def)
  have inv4: "invariant s4"
    by (rule inv_same[OF e4 g4 _ inv2]) (simp add: ri4)
  have gel: "getRoutingGroupFromEl (heap s4 el) = ?g" using g4 h2 by simp
  show "invariant (stateAfter (registerRoute w el s))"
    and "registerRoute w el s \<noteq> Inl (Interleaved, s')"
  proof -
    have both: "invariant (stateAfter (registerRoute w el s)) \<and>
        registerRoute w el s \<noteq> Inl (Interleaved, s')"
    proof (cases "map_of (elements s4) ?g")
      case None
      then have "registerRoute w el s = Inl (TypeError, s4)"
        by (simp add: reg elementsAt_def split: option.splits)
      then show ?thesis using inv4 by (simp add: stateAfter_def)
    next
      case (Some K2)
      note K4 = Some
      have reg': "registerRoute w el s = tail"
        by (simp add: reg elementsAt_def K4)
      from inv4 have wf4: "wellFormed s4" and am4: "activeIsMember s4"
        by (simp_all add: invariant_def)
      from wf4 K4 have m4: "\<forall>x \<in> set (members K2). getRoutingGroupFromEl (heap s4 x) = ?g"
        and f4: "\<forall>fb. fallback K2 = Some fb \<longrightarrow> getRoutingGroupFromEl (heap s4 fb) = ?g"
        unfolding wellFormed_iff by blast+
      from wf4 have d4: "distinct (map fst (elements s4))" by (simp add: wellFormed_def)
      from am4 K4 have a4: "\<forall>a. activeElement K2 = Some a \<longrightarrow> a \<in> set (members K2)"
        unfolding activeIsMember_iff[OF d4] by blast
      let ?K5 = "K2\<lparr>members := members K2 @ [el]\<rparr>"
      have e5: "elements s5 =
          AList.map_entry ?g (\<lambda>G. G\<lparr>members := members G @ [el]\<rparr>) (elements s4)"
        and h5: "heap s5 = heap s4" and ri5: "routerInstalled s5 = routerInstalled s4"
        by (simp_all add: s5_def)
      have g5: "\<forall>x. getRoutingGroupFromEl (heap s5 x) = getRoutingGroupFromEl (heap s4 x)"
        by (simp add: h5)
      have m5: "\<forall>x \<in> set (members ?K5). getRoutingGroupFromEl (heap s4 x) = ?g"
        using m4 gel by simp
      have f5: "\<forall>fb. fallback ?K5 = Some fb \<longrightarrow> getRoutingGroupFromEl (heap s4 fb) = ?g"
        using f4 by simp
      have i5: "routerInstalled s4 \<or> members ?K5 = []" using ri4 by simp
      have a5: "\<forall>a. activeElement ?K5 = Some a \<longrightarrow> a \<in> set (members ?K5)"
        using a4 by simp
      have inv5: "invariant s5"
        using inv_entry[OF inv4 K4 e5 g5 ri5 m5 f5 i5] a5 by (simp add: invariant_def)
      have K5: "map_of (elements s5) ?g = Some ?K5"
        by (simp add: e5 map_of_map_entry_eq[OF K4])
      let ?f6 = "\<lambda>G. if fallback G = None \<and> getFallbackFromEl (heap s5 el)
                     then G\<lparr>fallback := Some el\<rparr> else G"
      have e6: "elements s6 = AList.map_entry ?g ?f6 (elements s5)"
        and h6: "heap s6 = heap s5" and ri6: "routerInstalled s6 = routerInstalled s5"
        by (simp_all add: s6_def)
      have m6: "\<forall>x \<in> set (members (?f6 ?K5)). getRoutingGroupFromEl (heap s5 x) = ?g"
        using m4 gel by (simp add: h5)
      have f6: "\<forall>fb. fallback (?f6 ?K5) = Some fb \<longrightarrow> getRoutingGroupFromEl (heap s5 fb) = ?g"
        using f4 gel by (simp add: h5)
      have a6: "\<forall>a. activeElement (?f6 ?K5) = Some a \<longrightarrow> a \<in> set (members (?f6 ?K5))"
        using a4 by simp
      have g6: "\<forall>x. getRoutingGroupFromEl (heap s6 x) = getRoutingGroupFromEl (heap s5 x)"
        by (simp add: h6)
      have i6: "routerInstalled s5 \<or> members (?f6 ?K5) = []" using ri4 ri5 by simp
      have inv6: "invariant s6"
        using inv_entry[OF inv5 K5 e6 g6 ri6 m6 f6 i6] a6 by (simp add: invariant_def)
      then have wf6: "wellFormed s6" by (simp add: invariant_def)
      have K6: "map_of (elements s6) ?g = Some (?f6 ?K5)"
        by (simp add: e6 map_of_map_entry_eq[OF K5])
      have gel6: "getRoutingGroupFromEl (heap s6 el) = ?g"
        using gel by (simp add: h6 h5)
      show ?thesis
      proof (cases "fallback (?f6 ?K5) = None")
        case False
        then have t: "tail = activateCurrentPath w None s6"
          by (simp only: tail_def K6 option.case if_False)
        have "invariant (stateAfter (activateCurrentPath w None s6))"
          by (rule keeps_invariant[OF inv6 activateCurrentPath_keeps[OF wf6]])
        moreover have "activateCurrentPath w None s6 \<noteq> Inl (Interleaved, s')"
          using activateGroups_error[of w None "map fst (elements s6)" s6 Interleaved s']
          by (auto simp: activateCurrentPath_def)
        ultimately show ?thesis by (simp add: reg' t)
      next
        case True
        let ?K6 = "?f6 ?K5"
        have t: "tail = (case maybeActivateElement w el None s6 of
                  Inl thrown \<Rightarrow> Inl thrown
                | Inr (s7, isActive) \<Rightarrow> Inr s7)"
          using True by (simp only: tail_def K6 option.case simp_thms if_True)
        have K6': "map_of (elements s6) (getRoutingGroupFromEl (heap s6 el)) = Some ?K6"
          by (simp only: gel6 K6)
        have "el \<in> set (members ?K6)" by simp
        from maybeActivateElement_keeps[OF K6' this, of w None]
        have "invariant (stateAfter2 (maybeActivateElement w el None s6))"
          by (rule keeps_invariant[OF inv6])
        moreover have "stateAfter tail = stateAfter2 (maybeActivateElement w el None s6)"
          by (simp add: t stateAfter_def stateAfter2_def split: sum.splits prod.splits)
        moreover have "tail \<noteq> Inl (Interleaved, s')"
          using maybeActivateElement_error[of w el None s6 Interleaved s']
          by (auto simp: t split: sum.splits prod.splits)
        ultimately show ?thesis by (simp add: reg')
      qed
    qed
    from both show "invariant (stateAfter (registerRoute w el s))" ..
    from both show "registerRoute w el s \<noteq> Inl (Interleaved, s')" ..
  qed
qed

subsection \<open>The operations on lists of elements\<close>

lemma registerRoutesFromSelector_inv:
  assumes "invariant s"
  shows "invariant (stateAfter (registerRoutesFromSelector w els s)) \<and>
         registerRoutesFromSelector w els s \<noteq> Inl (Interleaved, s')"
  using assms
proof (induction els arbitrary: s)
  case Nil
  then show ?case by (simp add: stateAfter_def)
next
  case (Cons el rest)
  let ?g = "getRoutingGroupFromEl (heap s el)"
  let ?s1 = "createGroup ?g s"
  have inv1: "invariant ?s1" by (rule createGroup_inv(1)[OF Cons.prems])
  show ?case
  proof (cases "elementsAt ?s1 ?g")
    case NoValue
    then show ?thesis using inv1 by (simp add: Let_def stateAfter_def)
  next
    case InheritedValue
    then show ?thesis using inv1 by (simp add: Let_def stateAfter_def)
  next
    case (ElementValue x)
    then show ?thesis using inv1 by (simp add: Let_def stateAfter_def)
  next
    case (OwnGroup G)
    show ?thesis
    proof (cases "el \<in> set (members G)")
      case True
      then show ?thesis using OwnGroup Cons.IH[OF inv1] by (simp add: Let_def)
    next
      case False
      note r = registerRoute_inv[OF inv1, of w el]
      show ?thesis
      proof (cases "registerRoute w el ?s1")
        case (Inl thrown)
        then show ?thesis using OwnGroup False r
          by (auto simp: Let_def stateAfter_def)
      next
        case (Inr s2)
        with r(1) have "invariant s2" by (simp add: stateAfter_def)
        from Cons.IH[OF this] show ?thesis using OwnGroup False Inr by (simp add: Let_def)
      qed
    qed
  qed
qed

lemma unregisterRoute_same:
  "heap (stateAfter (unregisterRoute el s)) = heap s"
  "map_of (elements (stateAfter (unregisterRoute el s))) g = Some G' \<Longrightarrow>
   \<exists>G. map_of (elements s) g = Some G \<and> activeElement G' = activeElement G"
  by (auto simp: unregisterRoute_def Let_def map_of_map_entry stateAfter_def
      split: option.splits if_splits slot.splits)

lemma unregisterRoutesFromSelector_inv:
  assumes "invariant s"
    and "\<forall>el \<in> set els. \<forall>G. map_of (elements s) (getRoutingGroupFromEl (heap s el)) = Some G \<longrightarrow>
              activeElement G \<noteq> Some el"
  shows "invariant (unregisterRoutesFromSelector els s)"
  using assms
proof (induction els arbitrary: s)
  case Nil
  then show ?case by simp
next
  case (Cons el rest)
  let ?s1 = "stateAfter (unregisterRoute el s)"
  have inv1: "invariant ?s1"
    using unregisterRoute_inv[OF Cons.prems(1), of el] Cons.prems(2)
    by (simp add: invariant_def)
  have n1: "\<forall>x \<in> set rest. \<forall>G. map_of (elements ?s1) (getRoutingGroupFromEl (heap ?s1 x)) = Some G \<longrightarrow>
            activeElement G \<noteq> Some x"
  proof (intro ballI allI impI)
    fix x G' assume x: "x \<in> set rest"
      and G': "map_of (elements ?s1) (getRoutingGroupFromEl (heap ?s1 x)) = Some G'"
    from unregisterRoute_same(2)[OF G'] obtain G where
      "map_of (elements s) (getRoutingGroupFromEl (heap s x)) = Some G"
      "activeElement G' = activeElement G"
      by (auto simp: unregisterRoute_same(1))
    with Cons.prems(2) x show "activeElement G' \<noteq> Some x" by auto
  qed
  from Cons.IH[OF inv1 n1] Cons.prems(1) show ?case
    by (simp split: slot.splits)
qed

text \<open>
  C8, as amended. The invariant: the registry is well-formed, the router is installed
  when an element is registered, and the active element of every group, when it is
  set, is a member of the group. It holds when the module is loaded. It holds in the
  state in which \<open>activateCurrentPath\<close>, \<open>registerRoute\<close> and
  \<open>registerRoutesFromSelector\<close> return or throw, and from a state with the invariant
  \<open>registerRoute\<close> stays in the model. \<open>unregisterRoute\<close> keeps the registry
  well-formed, and keeps the active elements among the members when the element that
  it removes is not the active element of its group; so does
  \<open>unregisterRoutesFromSelector\<close>.
\<close>

theorem active_element_is_member:
  assumes "invariant s"
  shows "invariant (stateAfter (activateCurrentPath w e s)) \<and>
         activeIsMember (stateAfter (activateCurrentPath w e s)) \<and>
         invariant (stateAfter (registerRoute w el s)) \<and>
         activeIsMember (stateAfter (registerRoute w el s)) \<and>
         (\<forall>s'. registerRoute w el s \<noteq> Inl (Interleaved, s')) \<and>
         invariant (stateAfter (registerRoutesFromSelector w els s)) \<and>
         wellFormed (stateAfter (unregisterRoute el s)) \<and>
         installed (stateAfter (unregisterRoute el s)) \<and>
         ((\<forall>G. map_of (elements s) (getRoutingGroupFromEl (heap s el)) = Some G \<longrightarrow>
               activeElement G \<noteq> Some el) \<longrightarrow>
            activeIsMember (stateAfter (unregisterRoute el s))) \<and>
         ((\<forall>x \<in> set els. \<forall>G. map_of (elements s) (getRoutingGroupFromEl (heap s x)) = Some G \<longrightarrow>
               activeElement G \<noteq> Some x) \<longrightarrow>
            invariant (unregisterRoutesFromSelector els s)) \<and>
         invariant (initial h) \<and> activeIsMember (initial h)"
proof -
  from assms have wf: "wellFormed s" by (simp add: invariant_def)
  have 1: "invariant (stateAfter (activateCurrentPath w e s))"
    by (rule keeps_invariant[OF assms activateCurrentPath_keeps[OF wf]])
  have 2: "invariant (stateAfter (registerRoute w el s))"
    by (rule registerRoute_inv(1)[OF assms])
  have 3: "\<forall>s'. registerRoute w el s \<noteq> Inl (Interleaved, s')"
    using registerRoute_inv(2)[OF assms] by blast
  have 4: "invariant (stateAfter (registerRoutesFromSelector w els s))"
    using registerRoutesFromSelector_inv[OF assms] by blast
  have 5: "invariant (initial h)"
    by (simp add: invariant_def wellFormed_def installed_def activeIsMember_def initial_def
        emptyGroup_def)
  show ?thesis
    using 1 2 3 4 5 unregisterRoute_inv[OF assms, of el]
      unregisterRoutesFromSelector_inv[OF assms, of els]
    by (simp add: invariant_def)
qed

theorem active_element_is_member_witness:
  "invariant twoPages \<and>
   activateCurrentPath (browser ''/b'' '''') None twoPages =
     Inl (TypeError,
          twoPages\<lparr>elements :=
            [(''default'', \<lparr>members = [0, 1], fallback = None, activeElement = None\<rparr>)]\<rparr>) \<and>
   activeIsMember
     (twoPages\<lparr>elements :=
        [(''default'', \<lparr>members = [0, 1], fallback = None, activeElement = None\<rparr>)]\<rparr>) \<and>
   registerRoute (browser ''/b'' '''') 2 twoPages =
     Inl (TypeError,
          twoPages\<lparr>heap := (heap twoPages)
            (2 := blank\<lparr>routingGroupAttribute := Some ''constructor''\<rparr>)\<rparr>) \<and>
   activeIsMember
     (twoPages\<lparr>heap := (heap twoPages)
        (2 := blank\<lparr>routingGroupAttribute := Some ''constructor''\<rparr>)\<rparr>) \<and>
   unregisterRoute 1 twoPages =
     Inr (twoPages\<lparr>elements :=
            [(''default'', \<lparr>members = [0], fallback = None, activeElement = Some 0\<rparr>)]\<rparr>) \<and>
   activeIsMember
     (twoPages\<lparr>elements :=
        [(''default'', \<lparr>members = [0], fallback = None, activeElement = Some 0\<rparr>)]\<rparr>)"
  using active_element_is_member [of twoPages "browser ''/b'' ''''" None 2 "[1]" "\<lambda>_. blank"]
    active_element_is_member [of twoPages "browser ''/b'' ''''" None 1 "[1]" "\<lambda>_. blank"]
  by (simp add: twoPages_def invariant_def wellFormed_def installed_def activeIsMember_def
      stateAfter_def registerRoute_def createGroup_def installRouter_def
      objectPrototypeNames_def unregisterRoute_def activateCurrentPath_def
      activateGroup_def maybeActivateElement_def el_defs op_defs url_defs Let_def)

text \<open>
  C8, as stated, fails for \<open>unregisterRoute\<close>. From the state of the loaded module,
  at the location \<open>/a\<close>, registering a page of path \<open>/a\<close> makes it the active element
  of its group; unregistering it removes it from the members and leaves it the active
  element.
\<close>

theorem unregisterRoute_active_element:
  "registerRoute (browser ''/a'' '''') 0
     (initial (\<lambda>_. (page ''/a'')\<lparr>routingRegistered := False\<rparr>)) =
   Inr \<lparr> heap = (\<lambda>_. (page ''/a'')\<lparr>routingRegistered := False\<rparr>)
                  (0 := (page ''/a'')\<lparr>activeProperty := True, activeAttribute := True\<rparr>),
         elements = [(''default'', \<lparr>members = [0], fallback = None, activeElement = Some 0\<rparr>)],
         inheritedActive = Map.empty, routerInstalled = True,
         trace = [RouteActivated 0, PreRouterCallback 0 Map.empty None,
                  RouterCallback 0 Map.empty None] \<rparr> \<and>
   activeIsMember
     \<lparr> heap = (\<lambda>_. (page ''/a'')\<lparr>routingRegistered := False\<rparr>)
                (0 := (page ''/a'')\<lparr>activeProperty := True, activeAttribute := True\<rparr>),
       elements = [(''default'', \<lparr>members = [0], fallback = None, activeElement = Some 0\<rparr>)],
       inheritedActive = Map.empty, routerInstalled = True,
       trace = [RouteActivated 0, PreRouterCallback 0 Map.empty None,
                RouterCallback 0 Map.empty None] \<rparr> \<and>
   unregisterRoute 0
     \<lparr> heap = (\<lambda>_. (page ''/a'')\<lparr>routingRegistered := False\<rparr>)
                (0 := (page ''/a'')\<lparr>activeProperty := True, activeAttribute := True\<rparr>),
       elements = [(''default'', \<lparr>members = [0], fallback = None, activeElement = Some 0\<rparr>)],
       inheritedActive = Map.empty, routerInstalled = True,
       trace = [RouteActivated 0, PreRouterCallback 0 Map.empty None,
                RouterCallback 0 Map.empty None] \<rparr> =
   Inr \<lparr> heap = (\<lambda>_. (page ''/a'')\<lparr>routingRegistered := False\<rparr>)
                  (0 := (page ''/a'')\<lparr>activeProperty := True, activeAttribute := True\<rparr>),
         elements = [(''default'', \<lparr>members = [], fallback = None, activeElement = Some 0\<rparr>)],
         inheritedActive = Map.empty, routerInstalled = True,
         trace = [RouteActivated 0, PreRouterCallback 0 Map.empty None,
                  RouterCallback 0 Map.empty None] \<rparr> \<and>
   \<not> activeIsMember
     \<lparr> heap = (\<lambda>_. (page ''/a'')\<lparr>routingRegistered := False\<rparr>)
                (0 := (page ''/a'')\<lparr>activeProperty := True, activeAttribute := True\<rparr>),
       elements = [(''default'', \<lparr>members = [], fallback = None, activeElement = Some 0\<rparr>)],
       inheritedActive = Map.empty, routerInstalled = True,
       trace = [RouteActivated 0, PreRouterCallback 0 Map.empty None,
                RouterCallback 0 Map.empty None] \<rparr>"
  by (simp add: registerRoute_def initial_def emptyGroup_def activeIsMember_def
      createGroup_def installRouter_def objectPrototypeNames_def
      unregisterRoute_def activateCurrentPath_def
      activateGroup_def maybeActivateElement_def el_defs op_defs url_defs Let_def)

end
